theory Spec2Isabelle
  imports Main "HOL-Library.Sublist"
begin

section \<open>Strings and the library functions the program calls\<close>

text \<open>
  Go strings are byte sequences; they are modelled as \<open>string\<close> (a list of 8-bit
  characters).  All patterns of the program are ASCII, so matching byte-wise agrees with
  Go's rune-wise matching.
\<close>

definition is_digit :: "char \<Rightarrow> bool" where
  "is_digit c = (c \<in> set ''0123456789'')"

definition ident_start :: "char \<Rightarrow> bool" where
  "ident_start c = (c \<in> set ''abcdefghijklmnopqrstuvwxyzABCDEFGHIJKLMNOPQRSTUVWXYZ_'')"

definition ident_char :: "char \<Rightarrow> bool" where
  "ident_char c = (ident_start c \<or> is_digit c)"

text \<open>\<open>strings.Split(s, sep)\<close> for a one-character separator: the pieces between the
  separators, in order; a string without separator (also the empty one) is one piece.\<close>

fun split_from :: "char \<Rightarrow> string \<Rightarrow> string \<Rightarrow> string list" where
  "split_from sep cur [] = [cur]"
| "split_from sep cur (c # cs) =
     (if c = sep then cur # split_from sep [] cs else split_from sep (cur @ [c]) cs)"

definition Split :: "string \<Rightarrow> char \<Rightarrow> string list" where
  "Split s sep = split_from sep [] s"

text \<open>\<open>strings.HasPrefix\<close>.\<close>

definition HasPrefix :: "string \<Rightarrow> string \<Rightarrow> bool" where
  "HasPrefix s p = (take (length p) s = p)"

text \<open>\<open>strings.Join\<close>, with which \<open>HandleArguments\<close> builds the template from the
  command-line words.\<close>

fun Join :: "string list \<Rightarrow> string \<Rightarrow> string" where
  "Join [] sep = []"
| "Join [x] sep = x"
| "Join (x # y # ys) sep = x @ sep @ Join (y # ys) sep"

subsection \<open>Decimal numbers: \<open>strconv.Atoi\<close> and \<open>fmt.Sprintf("%d")\<close>\<close>

text \<open>Go's \<open>int\<close> is taken as the 64-bit signed integer; it is modelled as \<open>int\<close> with
  the wrap-around written out.\<close>

definition MaxInt :: int where
  "MaxInt = 2 ^ 63 - 1"

definition int64 :: "int \<Rightarrow> int" where
  "int64 x = (x + 2 ^ 63) mod 2 ^ 64 - 2 ^ 63"

definition digit_val :: "char \<Rightarrow> nat" where
  "digit_val c = of_char c - 48"

definition decimal :: "string \<Rightarrow> nat" where
  "decimal s = foldl (\<lambda>n c. n * 10 + digit_val c) 0 s"

datatype NumError = ErrSyntax | ErrRange

text \<open>\<open>strconv.Atoi\<close>: the value and the error. A value out of the range of \<open>int\<close> gives the
  nearest bound together with \<open>ErrRange\<close>; anything that is not an optionally signed,
  non-empty run of decimal digits gives 0 and \<open>ErrSyntax\<close>.\<close>

definition Atoi_unsigned :: "string \<Rightarrow> int \<times> NumError option" where
  "Atoi_unsigned ds =
     (if ds = [] then (0, Some ErrSyntax)
      else if list_all is_digit ds then
        (if int (decimal ds) \<le> MaxInt then (int (decimal ds), None)
         else (MaxInt, Some ErrRange))
      else (0, Some ErrSyntax))"

definition Atoi :: "string \<Rightarrow> int \<times> NumError option" where
  "Atoi s =
     (case s of
        [] \<Rightarrow> (0, Some ErrSyntax)
      | c # ds \<Rightarrow>
          if c = CHR ''+'' then Atoi_unsigned ds
          else if c = CHR ''-'' then
            (if ds = [] then (0, Some ErrSyntax)
             else if list_all is_digit ds then
               (if int (decimal ds) \<le> MaxInt + 1 then (- int (decimal ds), None)
                else (- MaxInt - 1, Some ErrRange))
             else (0, Some ErrSyntax))
          else Atoi_unsigned s)"

fun digits10 :: "nat \<Rightarrow> string" where
  "digits10 n =
     (if n < 10 then [''0123456789'' ! n]
      else digits10 (n div 10) @ [''0123456789'' ! (n mod 10)])"

declare digits10.simps [simp del]

definition Sprintf_d :: "int \<Rightarrow> string" where
  "Sprintf_d i = (if i < 0 then CHR ''-'' # digits10 (nat (- i)) else digits10 (nat i))"

section \<open>The Value-List Parser: \<open>ParseVarValues\<close>\<close>

text \<open>The pattern \<^verbatim>\<open>^\d+\-\d+$\<close> of \<open>ParseVarValues\<close> (\<open>p.MatchString\<close>): a non-empty run
  of digits, a hyphen, a non-empty run of digits, and nothing else.\<close>

definition range_token :: "string \<Rightarrow> bool" where
  "range_token n =
     (case dropWhile is_digit n of
        [] \<Rightarrow> False
      | c # b \<Rightarrow> takeWhile is_digit n \<noteq> [] \<and> c = CHR ''-'' \<and> b \<noteq> [] \<and> list_all is_digit b)"

text \<open>The inner loop \<^verbatim>\<open>for i := s; i <= e; i++ { rlt = append(rlt, fmt.Sprintf("%d", i)) }\<close>.
  The counter is a machine integer, so \<open>i++\<close> wraps; the loop need not terminate, and a run
  that never leaves it is the value \<open>None\<close>.\<close>

partial_function (option) range_loop :: "int \<Rightarrow> int \<Rightarrow> string list \<Rightarrow> string list option" where
  "range_loop i e rlt =
     (if i \<le> e then range_loop (int64 (i + 1)) e (rlt @ [Sprintf_d i]) else Some rlt)"

declare range_loop.simps [code]

text \<open>One iteration of the loop over the comma-separated tokens. Both errors of
  \<open>strconv.Atoi\<close> are discarded (\<^verbatim>\<open>s, _ := strconv.Atoi(se[0])\<close>).\<close>

definition ParseVarValues_token :: "string \<Rightarrow> string list \<Rightarrow> string list option" where
  "ParseVarValues_token n rlt =
     (if range_token n then
        (let se = Split n (CHR ''-'');
             s = fst (Atoi (se ! 0));
             e = fst (Atoi (se ! 1))
         in range_loop s e rlt)
      else Some (rlt @ [n]))"

fun ParseVarValues_loop :: "string list \<Rightarrow> string list \<Rightarrow> string list option" where
  "ParseVarValues_loop [] rlt = Some rlt"
| "ParseVarValues_loop (n # ls) rlt =
     Option.bind (ParseVarValues_token n rlt) (ParseVarValues_loop ls)"

definition ParseVarValues :: "string \<Rightarrow> string list option" where
  "ParseVarValues v = ParseVarValues_loop (Split v (CHR '','')) []"

text \<open>The two digit runs of a token of the shape digits-hyphen-digits.\<close>

definition range_parts :: "string \<Rightarrow> string \<times> string" where
  "range_parts n = (takeWhile is_digit n, tl (dropWhile is_digit n))"

text \<open>The values of one token in the words of the specification: a token of the shape
  digits-hyphen-digits stands for the integers from the first number to the second, both
  included, in ascending order, written in base 10 without padding (none when the first
  number is the larger one); any other token stands for itself. The numbers are the
  mathematical values of the digit runs, without any bound.\<close>

definition spec_values :: "string \<Rightarrow> string list" where
  "spec_values tok =
     (if range_token tok then
        map Sprintf_d
          [int (decimal (fst (range_parts tok))) .. int (decimal (snd (range_parts tok)))]
      else [tok])"

section \<open>The Placeholder Scanner and the Template Expander\<close>

text \<open>\<open>varRegexp\<close> is \<^verbatim>\<open>%\{[a-zA-Z_][a-zA-Z0-9_]*\}\<close>. \<open>match_var s\<close> is its match anchored at
  the first byte of \<open>s\<close> (the matched text), if there is one. The identifier is matched
  greedily and \<^verbatim>\<open>}\<close> is no identifier character, so the match at a position is unique.\<close>

definition match_var :: "string \<Rightarrow> string option" where
  "match_var s =
     (case s of
        c1 # c2 # c3 # rest \<Rightarrow>
          if c1 = CHR ''%'' \<and> c2 = CHR 0x7B \<and> ident_start c3 then
            (case dropWhile ident_char rest of
               [] \<Rightarrow> None
             | d # _ \<Rightarrow>
                 if d = CHR 0x7D then Some (c1 # c2 # c3 # takeWhile ident_char rest @ [d])
                 else None)
          else None
      | _ \<Rightarrow> None)"

text \<open>\<open>varRegexp.FindString\<close>: the text of the leftmost match, or the empty string.\<close>

fun FindString :: "string \<Rightarrow> string" where
  "FindString [] = []"
| "FindString (c # cs) =
     (case match_var (c # cs) of Some m \<Rightarrow> m | None \<Rightarrow> FindString cs)"

text \<open>\<open>regexp.MustCompile(varInTmp)\<close> compiles the text of a placeholder as a pattern. In
  Go's syntax a brace that does not open a repetition count stands for itself, and
  \<^verbatim>\<open>{name}\<close> with a name that starts with a letter or underscore is no count, so the
  pattern matches exactly the text \<open>varInTmp\<close>. \<open>ReplaceAllString r src repl\<close> replaces the
  non-overlapping matches of that text, leftmost first. (The pattern is never empty where
  the program calls it.)\<close>

function ReplaceAllString :: "string \<Rightarrow> string \<Rightarrow> string \<Rightarrow> string" where
  "ReplaceAllString r [] repl = []"
| "ReplaceAllString r (c # cs) repl =
     (if r \<noteq> [] \<and> prefix r (c # cs)
      then repl @ ReplaceAllString r (drop (length r) (c # cs)) repl
      else c # ReplaceAllString r cs repl)"
  by pat_completeness auto
termination
  by (relation "measure (\<lambda>(r, src, repl). length src)") (auto simp: neq_Nil_conv)

text \<open>Go expands the replacement string with \<open>Regexp.Expand\<close>: a replacement without
  \<^verbatim>\<open>$\<close> is copied as it is; in one with \<^verbatim>\<open>$\<close> the references (\<^verbatim>\<open>$0\<close>, \<^verbatim>\<open>$name\<close>, ...)
  are replaced by the library. That library function is the parameter \<open>expand\<close>, applied
  to the replacement and the matched text.\<close>

definition expand_replacement :: "(string \<Rightarrow> string \<Rightarrow> string) \<Rightarrow> string \<Rightarrow> string \<Rightarrow> string" where
  "expand_replacement expand repl m = (if CHR ''$'' \<in> set repl then expand repl m else repl)"

text \<open>A stand-in for \<open>Regexp.Expand\<close> that agrees with it on the replacement \<^verbatim>\<open>$0\<close>
  (which stands for the text of the whole match) and on replacements without \<^verbatim>\<open>$\<close>; it
  is applied to such replacements only.\<close>

definition expand_dollar_zero :: "string \<Rightarrow> string \<Rightarrow> string" where
  "expand_dollar_zero repl m = (if repl = ''$0'' then m else repl)"

text \<open>A Go slice expression \<open>s[lo:hi]\<close> (used with \<open>lo \<le> hi \<le> len(s)\<close> only).\<close>

definition slice :: "string \<Rightarrow> nat \<Rightarrow> nat \<Rightarrow> string" where
  "slice s lo hi = drop lo (take hi s)"

text \<open>\<open>variables[varName]\<close>: a key that is absent from a Go map gives the nil slice.\<close>

definition values_of :: "(string \<rightharpoonup> string list) \<Rightarrow> string \<Rightarrow> string list" where
  "values_of variables varName = (case variables varName of None \<Rightarrow> [] | Some vs \<Rightarrow> vs)"

text \<open>A \<open>for ... range\<close> loop whose body may fail to return: the body is run on the
  elements in order, threading the state, and a body that does not return ends the loop.\<close>

fun for_each :: "('a \<Rightarrow> 's \<Rightarrow> 's option) \<Rightarrow> 'a list \<Rightarrow> 's \<Rightarrow> 's option" where
  "for_each body [] s = Some s"
| "for_each body (x # xs) s = Option.bind (body x s) (for_each body xs)"

lemma for_each_mono [partial_function_mono]:
  assumes "\<And>x s. mono_option (\<lambda>f. body f x s)"
  shows "mono_option (\<lambda>f. for_each (body f) xs s)"
proof (induction xs arbitrary: s)
  case Nil
  show ?case by (simp add: option.const_mono)
next
  case (Cons x xs)
  show ?case by (simp, rule bind_mono [OF assms Cons])
qed

text \<open>\<open>ConstructFromTemplate\<close>. The global \<open>cmdList\<close> it appends to is passed in and
  returned. The recursion need not terminate; a call that never returns is \<open>None\<close>.\<close>

partial_function (option) ConstructFromTemplate ::
  "(string \<Rightarrow> string \<Rightarrow> string) \<Rightarrow> (string \<rightharpoonup> string list) \<Rightarrow> string \<Rightarrow> string list
     \<Rightarrow> string list option" where
  "ConstructFromTemplate expand variables template cmdList =
     (let varInTmp = FindString template in
      if varInTmp = [] then Some (cmdList @ [template])
      else
        let l = length varInTmp;
            varName = slice varInTmp 2 (l - 1)
        in for_each
             (\<lambda>k cl. ConstructFromTemplate expand variables
                (ReplaceAllString varInTmp template (expand_replacement expand k varInTmp)) cl)
             (values_of variables varName) cmdList)"

declare ConstructFromTemplate.simps [code]

text \<open>The variables \<open>varName\<close> and \<open>replaced\<close> of one call, as functions of the template (and
  of the value \<open>k\<close>).\<close>

definition varName_of :: "string \<Rightarrow> string" where
  "varName_of template = (let varInTmp = FindString template in slice varInTmp 2 (length varInTmp - 1))"

definition replaced :: "(string \<Rightarrow> string \<Rightarrow> string) \<Rightarrow> string \<Rightarrow> string \<Rightarrow> string" where
  "replaced expand template k =
     (let varInTmp = FindString template
      in ReplaceAllString varInTmp template (expand_replacement expand k varInTmp))"

subsection \<open>Placeholders that occur in a template\<close>

text \<open>The text of the placeholder with the name \<open>x\<close>, and the names the pattern admits.\<close>

definition token :: "string \<Rightarrow> string" where
  "token x = ''%{'' @ x @ ''}''"

definition is_ident :: "string \<Rightarrow> bool" where
  "is_ident x = (case x of [] \<Rightarrow> False | c # cs \<Rightarrow> ident_start c \<and> list_all ident_char cs)"

text \<open>All matches of \<open>varRegexp\<close> in a string, at every position (two matches cannot
  overlap), and the distinct names of the placeholders that occur in a template.\<close>

fun all_matches :: "string \<Rightarrow> string list" where
  "all_matches [] = []"
| "all_matches (c # cs) =
     (case match_var (c # cs) of Some m \<Rightarrow> [m] | None \<Rightarrow> []) @ all_matches cs"

definition used_names :: "string \<Rightarrow> string list" where
  "used_names t = remdups (map (\<lambda>m. slice m 2 (length m - 1)) (all_matches t))"

text \<open>A template is well formed when each of its \<^verbatim>\<open>%\<close> characters begins a placeholder. A
  value is plain when it contains neither \<^verbatim>\<open>%\<close> nor \<^verbatim>\<open>$\<close>.\<close>

fun wf_template :: "string \<Rightarrow> bool" where
  "wf_template [] = True"
| "wf_template (c # cs) = ((c = CHR ''%'' \<longrightarrow> match_var (c # cs) \<noteq> None) \<and> wf_template cs)"

definition plain :: "string \<Rightarrow> bool" where
  "plain v = (CHR ''%'' \<notin> set v \<and> CHR ''$'' \<notin> set v)"

definition plain_values :: "(string \<rightharpoonup> string list) \<Rightarrow> bool" where
  "plain_values variables = (\<forall>name. list_all plain (values_of variables name))"

text \<open>A well-formed template read as a sequence of literal pieces and placeholders; the
  proofs below work on this view.\<close>

datatype seg = Lit string | Var string

fun render :: "seg list \<Rightarrow> string" where
  "render [] = []"
| "render (Lit l # ss) = l @ render ss"
| "render (Var x # ss) = token x @ render ss"

fun wf_seg :: "seg \<Rightarrow> bool" where
  "wf_seg (Lit l) = (CHR ''%'' \<notin> set l)"
| "wf_seg (Var x) = is_ident x"

fun vars_of :: "seg list \<Rightarrow> string list" where
  "vars_of [] = []"
| "vars_of (Lit l # ss) = vars_of ss"
| "vars_of (Var x # ss) = x # vars_of ss"

definition subst :: "string \<Rightarrow> string \<Rightarrow> seg list \<Rightarrow> seg list" where
  "subst x k segs = map (\<lambda>s. if s = Var x then Lit k else s) segs"

section \<open>The Command Runner, the Completion Poller and the Orchestrator\<close>

subsection \<open>The platform\<close>

text \<open>What a child process does, as \<open>RunCommand\<close> observes it:
  \<^item> \<open>StartFailed e\<close>: \<open>c.Start()\<close> returned an error whose text is \<open>e\<close>; no process state
    exists, and \<open>ProcessState.ExitCode()\<close> of the nil state is \<open>-1\<close>;
  \<^item> \<open>WaitFailed stderr e code\<close>: \<open>c.Wait()\<close> returned an error with text \<open>e\<close> (a non-zero
    exit among others), the captured standard error and the reported exit code;
  \<^item> \<open>Completed stdout stderr\<close>: \<open>c.Wait()\<close> returned no error, so the exit code is 0.\<close>

datatype proc_outcome =
    StartFailed string
  | WaitFailed string string int
  | Completed string string

text \<open>\<open>json.Unmarshal(out.Bytes(), &o)\<close> into a \<open>map[string]interface{}\<close>: an error, the
  nil map (for the text \<^verbatim>\<open>null\<close>) or a decoded object. Decoded objects are values of a type
  \<open>'j\<close> of the platform.\<close>

datatype 'j unmarshalled = UnmarshalError | UnmarshalNull | UnmarshalObject 'j

text \<open>The field \<open>Out\<close> of a result: the nil map it starts as, a decoded object, or the
  one-entry map \<^verbatim>\<open>{"message": out.Bytes()}\<close>.\<close>

datatype 'j out_map = NilMap | Object 'j | Message string

record NeutronResponse =
  ID :: string
  ProvisioningStatus :: string

text \<open>The operating system, the clock and the JSON library:
  \<^item> \<open>spawn n argv\<close>: the outcome of the process started with the argument vector \<open>argv\<close>
    when \<open>n\<close> processes have been started before;
  \<^item> \<open>now k\<close>: the value of the \<open>k\<close>-th reading of \<open>time.Now()\<close>, in nanoseconds;
  \<^item> \<open>json_Unmarshal\<close>: see above;
  \<^item> \<open>id_text j\<close>: the text \<open>fmt.Sprintf("%s", j["id"])\<close>;
  \<^item> \<open>response j\<close>: \<open>j\<close> marshalled and unmarshalled into a \<open>NeutronResponse\<close>, errors
    dropped.\<close>

record 'j platform =
  spawn :: "nat \<Rightarrow> string list \<Rightarrow> proc_outcome"
  now :: "nat \<Rightarrow> int"
  json_Unmarshal :: "string \<Rightarrow> 'j unmarshalled"
  id_text :: "'j \<Rightarrow> string"
  response :: "'j \<Rightarrow> NeutronResponse"

text \<open>The state of a run: the commands \<open>RunCommand\<close> was called with so far (each call
  starts one process), and the number of clock readings made.\<close>

record world =
  started :: "string list"
  ticks :: nat

record 'j CommandResult =
  Seq :: int
  Command :: string
  Out :: "'j out_map"
  Err :: string
  ExitCode :: int
  Duration :: int
  Checked :: string
  CheckedDuration :: int

definition cmdPrefix :: string where
  "cmdPrefix = ''neutron lbaas-''"

subsection \<open>\<open>RunCommand\<close>\<close>

definition RunCommand :: "'j platform \<Rightarrow> string \<Rightarrow> world \<Rightarrow> 'j CommandResult \<times> world" where
  "RunCommand plat cmd w =
     (let cmdArgs = Split cmd (CHR '' '') @ [''--format'', ''json''];
          cr = \<lparr>Seq = 0, Command = cmd, Out = NilMap, Err = [], ExitCode = 0, Duration = 0,
                Checked = [], CheckedDuration = 0\<rparr>;
          fs = now plat (ticks w);
          cr1 = (case spawn plat (length (started w)) cmdArgs of
                   StartFailed e \<Rightarrow> cr\<lparr>Err := e, ExitCode := - 1\<rparr>
                 | WaitFailed stderr e code \<Rightarrow> cr\<lparr>Err := stderr @ e, ExitCode := code\<rparr>
                 | Completed stdout stderr \<Rightarrow>
                     (case json_Unmarshal plat stdout of
                        UnmarshalError \<Rightarrow> cr\<lparr>Out := Message stdout, Err := stderr\<rparr>
                      | UnmarshalNull \<Rightarrow> cr\<lparr>Err := stderr\<rparr>
                      | UnmarshalObject obj \<Rightarrow> cr\<lparr>Out := Object obj, Err := stderr\<rparr>));
          fe = now plat (ticks w + 1)
      in (cr1\<lparr>Duration := fe - fs\<rparr>,
          w\<lparr>started := started w @ [cmd], ticks := ticks w + 2\<rparr>))"

subsection \<open>\<open>CheckExecution\<close>\<close>

text \<open>A call either returns, or panics (an index out of range ends the whole program),
  or is still in a polling loop when the fuel given to the loop is used up.\<close>

datatype 'a result = Returned 'a | Panicked | Unfinished

text \<open>Lines 101-103: \<open>args[1]\<close>, \<open>subs[1]\<close> and \<open>subs[2]\<close> panic when out of range.\<close>

definition operation_kind :: "string \<Rightarrow> (string \<times> string) result" where
  "operation_kind cmd =
     (let args = Split cmd (CHR '' '') in
      if length args < 2 then Panicked
      else
        let subs = Split (args ! 1) (CHR ''-'') in
        if length subs < 3 then Panicked
        else Returned (subs ! 1, subs ! 2))"

text \<open>\<open>rlt.Out["id"]\<close> printed with \<^verbatim>\<open>%s\<close>; a missing key is the nil interface.\<close>

definition out_id_text :: "'j platform \<Rightarrow> 'j out_map \<Rightarrow> string" where
  "out_id_text plat out =
     (case out of Object j \<Rightarrow> id_text plat j | _ \<Rightarrow> ''%!s(<nil>)'')"

text \<open>\<open>json.Marshal(cr.Out)\<close> unmarshalled into a \<open>NeutronResponse\<close>: the nil map and the
  message map leave both fields empty.\<close>

definition out_response :: "'j platform \<Rightarrow> 'j out_map \<Rightarrow> NeutronResponse" where
  "out_response plat out =
     (case out of Object j \<Rightarrow> response plat j
      | _ \<Rightarrow> \<lparr>ID = [], ProvisioningStatus = []\<rparr>)"

text \<open>The loop \<^verbatim>\<open>for true { ... }\<close> of \<open>CheckExecution\<close>; the fuel bounds the number of its
  iterations.\<close>

fun poll :: "'j platform \<Rightarrow> nat \<Rightarrow> string \<Rightarrow> 'j CommandResult \<Rightarrow> world
    \<Rightarrow> 'j CommandResult result \<times> world" where
  "poll plat 0 checkCmd rlt w = (Unfinished, w)"
| "poll plat (Suc fuel) checkCmd rlt w =
     (case RunCommand plat checkCmd w of
        (cr, w1) \<Rightarrow>
          if ExitCode cr \<noteq> 0 then
            (Returned (rlt\<lparr>Checked :=
               ''Failed to check execution of '' @ Command rlt @ '': '' @ Err cr\<rparr>), w1)
          else
            let stat = out_response plat (Out cr) in
            if HasPrefix (ProvisioningStatus stat) ''PENDING_'' then poll plat fuel checkCmd rlt w1
            else
              (Returned (rlt\<lparr>Checked := ID stat @ '': '' @ ProvisioningStatus stat\<rparr>), w1))"

text \<open>\<open>CheckExecution\<close> receives its argument by value and returns nothing: its assignments
  to \<open>rlt\<close> change the callee's copy. The model returns the final value of that copy, so
  that what the function computes can be stated; no caller can see it.\<close>

definition CheckExecution :: "'j platform \<Rightarrow> nat \<Rightarrow> 'j CommandResult \<Rightarrow> world
    \<Rightarrow> 'j CommandResult result \<times> world" where
  "CheckExecution plat fuel rlt w =
     (case operation_kind (Command rlt) of
        Panicked \<Rightarrow> (Panicked, w)
      | Unfinished \<Rightarrow> (Unfinished, w)
      | Returned (resourceType, operation) \<Rightarrow>
          let args = Split (Command rlt) (CHR '' '');
              fs = now plat (ticks w);
              w1 = w\<lparr>ticks := ticks w + 1\<rparr>;
              (r, w2) =
                (if operation = ''create'' \<or> operation = ''update'' then
                   let checkCmd = ''neutron lbaas-'' @ resourceType @ ''-show ''
                                    @ out_id_text plat (Out rlt)
                   in poll plat fuel checkCmd rlt w1
                 else (Returned (rlt\<lparr>Checked := args ! 1 @ '' done''\<rparr>), w1))
          in
            (case r of
               Returned rlt' \<Rightarrow>
                 let fe = now plat (ticks w2) in
                 (Returned (rlt'\<lparr>CheckedDuration := fe - fs + Duration rlt\<rparr>),
                  w2\<lparr>ticks := ticks w2 + 1\<rparr>)
             | _ \<Rightarrow> (r, w2)))"

subsection \<open>\<open>RunCmds\<close>\<close>

text \<open>The globals \<open>cmdList\<close> and \<open>cmdResults\<close> are passed in and returned. \<open>CheckExecution(cr)\<close>
  is called for its effects; what it did to its copy of \<open>cr\<close> is lost.\<close>

fun RunCmds_loop :: "'j platform \<Rightarrow> nat \<Rightarrow> string list \<Rightarrow> 'j CommandResult list \<Rightarrow> world
    \<Rightarrow> 'j CommandResult list result \<times> world" where
  "RunCmds_loop plat fuel [] cmdResults w = (Returned cmdResults, w)"
| "RunCmds_loop plat fuel (n # ns) cmdResults w =
     (let fullCmd = cmdPrefix @ n in
      case RunCommand plat fullCmd w of
        (cr, w1) \<Rightarrow>
          let cmdResults1 = cmdResults @ [cr] in
          if ExitCode cr \<noteq> 0 then RunCmds_loop plat fuel ns cmdResults1 w1
          else
            (case CheckExecution plat fuel cr w1 of
               (Returned _, w2) \<Rightarrow> RunCmds_loop plat fuel ns cmdResults1 w2
             | (Panicked, w2) \<Rightarrow> (Panicked, w2)
             | (Unfinished, w2) \<Rightarrow> (Unfinished, w2)))"

definition RunCmds :: "'j platform \<Rightarrow> nat \<Rightarrow> string list \<Rightarrow> world
    \<Rightarrow> 'j CommandResult list result \<times> world" where
  "RunCmds plat fuel cmdList w = RunCmds_loop plat fuel cmdList [] w"

subsection \<open>Concrete platforms\<close>

text \<open>A platform on which every process exits with status 0 and prints an object whose
  \<open>id\<close> is \<open>abc\<close> and whose status is \<open>ACTIVE\<close>, with a clock that advances by 5 ns from
  one reading to the next; and a platform on which no executable is found.\<close>

definition demo_platform :: "unit platform" where
  "demo_platform =
     \<lparr>spawn = (\<lambda>n argv. Completed ''{}'' []), now = (\<lambda>k. 5 * int k),
      json_Unmarshal = (\<lambda>s. UnmarshalObject ()), id_text = (\<lambda>j. ''abc''),
      response = (\<lambda>j. \<lparr>ID = ''abc'', ProvisioningStatus = ''ACTIVE''\<rparr>)\<rparr>"

definition absent_platform :: "unit platform" where
  "absent_platform =
     \<lparr>spawn = (\<lambda>n argv. StartFailed ''exec: neutron: executable file not found in $PATH''),
      now = (\<lambda>k. 5 * int k),
      json_Unmarshal = (\<lambda>s. UnmarshalError), id_text = (\<lambda>j. []),
      response = (\<lambda>j. \<lparr>ID = [], ProvisioningStatus = []\<rparr>)\<rparr>"

definition fresh_world :: world where
  "fresh_world = \<lparr>started = [], ticks = 0\<rparr>"

definition list_result :: "unit CommandResult" where
  "list_result =
     \<lparr>Seq = 0, Command = ''neutron lbaas-loadbalancer-list'', Out = Object (), Err = [],
      ExitCode = 0, Duration = 5, Checked = [], CheckedDuration = 0\<rparr>"

section \<open>Properties of the Orchestrator, the Runner and the Poller\<close>

lemmas run_eval = RunCmds_def RunCommand_def CheckExecution_def operation_kind_def Split_def
  cmdPrefix_def HasPrefix_def out_id_text_def out_response_def Let_def demo_platform_def
  absent_platform_def fresh_world_def list_result_def

subsection \<open>Splitting and joining\<close>

lemma split_from_no_sep:
  "sep \<notin> set u \<Longrightarrow> split_from sep cur (u @ rest) = split_from sep (cur @ u) rest"
  by (induction u arbitrary: cur) auto

lemma split_from_no_sep_end: "sep \<notin> set u \<Longrightarrow> split_from sep cur u = [cur @ u]"
  using split_from_no_sep [of sep u cur "[]"] by simp

lemma Split_Join:
  "ps \<noteq> [] \<Longrightarrow> list_all (\<lambda>p. sep \<notin> set p) ps \<Longrightarrow> Split (Join ps [sep]) sep = ps"
proof (induction ps "[sep]" rule: Join.induct)
  case 1
  then show ?case by simp
next
  case (2 x)
  then show ?case by (simp add: Split_def split_from_no_sep_end)
next
  case (3 x y ys)
  then show ?case by (simp add: Split_def split_from_no_sep)
qed

subsection \<open>What one call of \<open>RunCommand\<close> leaves behind\<close>

lemma RunCommand_fresh_fields:
  "RunCommand plat cmd w = (cr, w1) \<Longrightarrow>
     Seq cr = 0 \<and> Checked cr = [] \<and> CheckedDuration cr = 0 \<and> Command cr = cmd"
  by (auto simp: RunCommand_def Let_def split: proc_outcome.splits unmarshalled.splits)

lemma RunCommand_world:
  "RunCommand plat cmd w = (cr, w1) \<Longrightarrow>
     w1 = w\<lparr>started := started w @ [cmd], ticks := ticks w + 2\<rparr>"
  by (auto simp: RunCommand_def Let_def)

subsection \<open>The records \<open>RunCmds\<close> returns\<close>

lemma RunCmds_loop_appends:
  "RunCmds_loop plat fuel ns rs w = (Returned out, w') \<Longrightarrow>
     \<exists>new. out = rs @ new \<and> length new = length ns \<and>
       list_all (\<lambda>r. Seq r = 0 \<and> Checked r = [] \<and> CheckedDuration r = 0) new \<and>
       map Command new = map ((@) cmdPrefix) ns"
proof (induction ns arbitrary: rs w)
  case Nil
  then show ?case by simp
next
  case (Cons n ns)
  obtain cr w1 where rc: "RunCommand plat (cmdPrefix @ n) w = (cr, w1)"
    by (cases "RunCommand plat (cmdPrefix @ n) w")
  note f = RunCommand_fresh_fields [OF rc]
  show ?case
  proof (cases "ExitCode cr \<noteq> 0")
    case True
    with Cons.prems rc have "RunCmds_loop plat fuel ns (rs @ [cr]) w1 = (Returned out, w')"
      by simp
    from Cons.IH [OF this] f show ?thesis by auto
  next
    case False
    obtain r w2 where ce: "CheckExecution plat fuel cr w1 = (r, w2)"
      by (cases "CheckExecution plat fuel cr w1")
    with Cons.prems rc False have "RunCmds_loop plat fuel ns (rs @ [cr]) w2 = (Returned out, w')"
      by (cases r) (simp_all)
    from Cons.IH [OF this] f show ?thesis by auto
  qed
qed

lemma demo_two_lists:
  "RunCmds demo_platform 0 [''loadbalancer-list'', ''pool-list''] fresh_world =
     (Returned
        [\<lparr>Seq = 0, Command = ''neutron lbaas-loadbalancer-list'', Out = Object (), Err = [],
           ExitCode = 0, Duration = 5, Checked = [], CheckedDuration = 0\<rparr>,
         \<lparr>Seq = 0, Command = ''neutron lbaas-pool-list'', Out = Object (), Err = [],
           ExitCode = 0, Duration = 5, Checked = [], CheckedDuration = 0\<rparr>],
      \<lparr>started = [''neutron lbaas-loadbalancer-list'', ''neutron lbaas-pool-list''],
         ticks = 8\<rparr>)"
  by (simp add: run_eval)

text \<open>
  Claim C1 says that for every executed command with exit code 0 the outcome of the
  Completion Poller is attached to the command's record in the collection that is
  returned. The code does not do that: \<open>CheckExecution\<close> works on a copy of the record,
  and in every collection \<open>RunCmds\<close> returns, every record still has the empty \<open>Checked\<close>
  text and the \<open>CheckedDuration\<close> 0 that \<open>RunCommand\<close> gave it, whatever its exit code.
\<close>

theorem RunCmds_results_unchecked:
  assumes "RunCmds plat fuel cmdList w = (Returned out, w')" and "i < length out"
  shows "Checked (out ! i) = [] \<and> CheckedDuration (out ! i) = 0"
  using RunCmds_loop_appends [OF assms(1) [unfolded RunCmds_def]] assms(2)
  by (auto simp: list_all_length)

theorem RunCmds_results_unchecked_witness:
  "\<exists>out w'. RunCmds demo_platform 0 [''loadbalancer-list'', ''pool-list''] fresh_world
       = (Returned out, w') \<and>
     ExitCode (out ! 0) = 0 \<and> Checked (out ! 0) = [] \<and> CheckedDuration (out ! 0) = 0 \<and>
     fst (CheckExecution demo_platform 0 (out ! 0) fresh_world)
       = Returned ((out ! 0)\<lparr>Checked := ''lbaas-loadbalancer-list done'', CheckedDuration := 10\<rparr>)"
  using RunCmds_results_unchecked [OF demo_two_lists, of 0]
  by (simp add: demo_two_lists) (simp add: run_eval)

text \<open>
  Claim C6 says that the i-th record of the returned collection carries the sequence
  number i. The code never assigns \<open>Seq\<close> after \<open>RunCommand\<close> has set it to 0: every record
  of every returned collection has the sequence number 0.
\<close>

theorem RunCmds_Seq_zero:
  assumes "RunCmds plat fuel cmdList w = (Returned out, w')" and "i < length out"
  shows "Seq (out ! i) = 0"
  using RunCmds_loop_appends [OF assms(1) [unfolded RunCmds_def]] assms(2)
  by (auto simp: list_all_length)

theorem RunCmds_Seq_zero_witness:
  "\<exists>out w'. RunCmds demo_platform 0 [''loadbalancer-list'', ''pool-list''] fresh_world
       = (Returned out, w') \<and>
     length out = 2 \<and> Command (out ! 1) = ''neutron lbaas-pool-list'' \<and> Seq (out ! 1) = 0"
  using RunCmds_Seq_zero [OF demo_two_lists, of 1]
  by (simp add: demo_two_lists)

subsection \<open>The operation kind\<close>

text \<open>The claim as stated fails where the second word has more than three hyphen-separated
  parts: for \<^verbatim>\<open>neutron lbaas-loadbalancer-list-on-agent\<close> the Poller takes \<open>list\<close> as the
  operation, and the last part is \<open>agent\<close>.\<close>

theorem operation_kind_not_last_part:
  "operation_kind ''neutron lbaas-loadbalancer-list-on-agent'' = Returned (''loadbalancer'', ''list'')
   \<and> Split (Split ''neutron lbaas-loadbalancer-list-on-agent'' (CHR '' '') ! 1) (CHR ''-'')
       = [''lbaas'', ''loadbalancer'', ''list'', ''on'', ''agent'']
   \<and> last [''lbaas'', ''loadbalancer'', ''list'', ''on'', ''agent''] \<noteq> ''list''"
  by (simp add: operation_kind_def Split_def)

text \<open>
  Claim C8, amended: for a command made of words separated by single spaces, whose second
  word is made of parts separated by hyphens, the Poller takes the second part as the
  resource type and the third part as the operation (the middle and the last part when
  there are exactly three); with fewer than three parts it panics.
\<close>

theorem operation_kind_second_third:
  assumes "parts \<noteq> []"
    and "list_all (\<lambda>p. CHR ''-'' \<notin> set p \<and> CHR '' '' \<notin> set p) parts"
    and "CHR '' '' \<notin> set exe"
    and "list_all (\<lambda>a. CHR '' '' \<notin> set a) argv"
  shows "operation_kind (Join (exe # Join parts ''-'' # argv) '' '') =
           (if length parts < 3 then Panicked else Returned (parts ! 1, parts ! 2))"
proof -
  have ps: "Split (Join parts ''-'') (CHR ''-'') = parts"
    using assms(1,2) by (intro Split_Join) (auto simp: list_all_iff)
  have "CHR '' '' \<notin> set (Join parts ''-'')"
    using assms(2) by (induction parts "''-''" rule: Join.induct) auto
  with assms(3,4)
  have "Split (Join (exe # Join parts ''-'' # argv) '' '') (CHR '' '')
          = exe # Join parts ''-'' # argv"
    by (intro Split_Join) auto
  then show ?thesis
    by (simp add: operation_kind_def Let_def ps)
qed

theorem operation_kind_second_third_witness:
  "operation_kind ''neutron lbaas-pool-create --name p1'' = Returned (''pool'', ''create'')
   \<and> operation_kind ''neutron lbaas-help'' = Panicked"
  using operation_kind_second_third
          [of "[''lbaas'', ''pool'', ''create'']" "''neutron''" "[''--name'', ''p1'']"]
        operation_kind_second_third [of "[''lbaas'', ''help'']" "''neutron''" "[]"]
  by simp

subsection \<open>Commands that need no polling\<close>

text \<open>The claim as stated fails on the message and on the duration: for
  \<^verbatim>\<open>neutron lbaas-loadbalancer-list\<close> the operation is \<open>list\<close>, the text is the whole second
  word followed by \<open>done\<close>, and the duration includes what the clock advanced between the
  Poller's two readings.\<close>

theorem CheckExecution_done_text_counterexample:
  "operation_kind (Command list_result) = Returned (''loadbalancer'', ''list'')
   \<and> CheckExecution demo_platform 0 list_result fresh_world
       = (Returned (list_result\<lparr>Checked := ''lbaas-loadbalancer-list done'', CheckedDuration := 10\<rparr>),
          \<lparr>started = [], ticks = 2\<rparr>)
   \<and> ''lbaas-loadbalancer-list done'' \<noteq> ''list done''
   \<and> Duration list_result = 5"
  by (simp add: run_eval)

text \<open>
  Claim C9, amended: a checked command whose derived operation is show, list or delete
  never enters the polling loop: whatever the fuel, \<open>CheckExecution\<close> returns without
  starting any process, having set \<open>Checked\<close> (of its own copy of the record) to the second
  word of the command followed by \<open>done\<close>, and \<open>CheckedDuration\<close> to the execution
  \<open>Duration\<close> plus the difference of its two consecutive clock readings.
\<close>

theorem CheckExecution_no_polling:
  assumes "operation_kind (Command rlt) = Returned (resourceType, operation)"
    and "operation = ''show'' \<or> operation = ''list'' \<or> operation = ''delete''"
  shows "CheckExecution plat fuel rlt w =
    (Returned (rlt\<lparr>Checked := Split (Command rlt) (CHR '' '') ! 1 @ '' done'',
        CheckedDuration := now plat (ticks w + 1) - now plat (ticks w) + Duration rlt\<rparr>),
     w\<lparr>ticks := ticks w + 2\<rparr>)"
  using assms by (auto simp: CheckExecution_def Let_def)

lemma delete_kind:
  "operation_kind (Command (list_result\<lparr>Command := ''neutron lbaas-pool-delete p1''\<rparr>))
     = Returned (''pool'', ''delete'')"
  by (simp add: run_eval)

theorem CheckExecution_no_polling_witness:
  "CheckExecution demo_platform 0 (list_result\<lparr>Command := ''neutron lbaas-pool-delete p1''\<rparr>)
       fresh_world
     = (Returned (list_result\<lparr>Command := ''neutron lbaas-pool-delete p1'',
          Checked := ''lbaas-pool-delete done'', CheckedDuration := 10\<rparr>),
        \<lparr>started = [], ticks = 2\<rparr>)"
  using CheckExecution_no_polling [OF delete_kind, of demo_platform 0 fresh_world]
  by (simp add: run_eval)

subsection \<open>The commands that are started\<close>

lemma poll_started:
  "poll plat fuel checkCmd rlt w = (r, w') \<Longrightarrow>
     \<exists>k. started w' = started w @ replicate k checkCmd"
proof (induction fuel arbitrary: w)
  case 0
  then show ?case by simp
next
  case (Suc fuel)
  obtain cr w1 where rc: "RunCommand plat checkCmd w = (cr, w1)"
    by (cases "RunCommand plat checkCmd w")
  have w1: "started w1 = started w @ [checkCmd]"
    using RunCommand_world [OF rc] by simp
  show ?case
  proof (cases "ExitCode cr = 0 \<and>
      HasPrefix (ProvisioningStatus (out_response plat (Out cr))) ''PENDING_''")
    case True
    with Suc.prems rc have "poll plat fuel checkCmd rlt w1 = (r, w')"
      by (simp add: Let_def)
    from Suc.IH [OF this] obtain k where "started w' = started w1 @ replicate k checkCmd" ..
    with w1 have "started w' = started w @ replicate (Suc k) checkCmd"
      by (simp add: replicate_append_same)
    then show ?thesis ..
  next
    case False
    with Suc.prems rc have "w' = w1"
      by (auto simp: Let_def split: if_splits)
    with w1 have "started w' = started w @ replicate 1 checkCmd" by simp
    then show ?thesis ..
  qed
qed

lemma CheckExecution_started:
  assumes "CheckExecution plat fuel rlt w = (r, w')"
  shows "\<exists>k rt i. started w' = started w @ replicate k (''neutron lbaas-'' @ rt @ ''-show '' @ i)"
proof (cases "operation_kind (Command rlt)")
  case (Returned kind)
  obtain rt op where kind: "kind = (rt, op)" by (cases kind)
  show ?thesis
  proof (cases "op = ''create'' \<or> op = ''update''")
    case True
    let ?c = "''neutron lbaas-'' @ rt @ ''-show '' @ out_id_text plat (Out rlt)"
    obtain r2 w2 where p: "poll plat fuel ?c rlt (w\<lparr>ticks := ticks w + 1\<rparr>) = (r2, w2)"
      by (cases "poll plat fuel ?c rlt (w\<lparr>ticks := ticks w + 1\<rparr>)")
    from poll_started [OF p] obtain k where k: "started w2 = started w @ replicate k ?c"
      by auto
    from assms Returned kind True p have "started w' = started w2"
      by (auto simp: CheckExecution_def Let_def split: result.splits)
    with k show ?thesis by metis
  next
    case False
    with assms Returned kind have "started w' = started w"
      by (auto simp: CheckExecution_def Let_def)
    then have "started w' = started w @ replicate 0 (''neutron lbaas-'' @ [] @ ''-show '' @ [])"
      by simp
    then show ?thesis by blast
  qed
next
  case Panicked
  with assms have "started w' = started w @ replicate 0 (''neutron lbaas-'' @ [] @ ''-show '' @ [])"
    by (simp add: CheckExecution_def)
  then show ?thesis by blast
next
  case Unfinished
  with assms have "started w' = started w @ replicate 0 (''neutron lbaas-'' @ [] @ ''-show '' @ [])"
    by (simp add: CheckExecution_def)
  then show ?thesis by blast
qed

lemma RunCmds_loop_started:
  "RunCmds_loop plat fuel ns rs w = (res, w') \<Longrightarrow>
     \<exists>new. started w' = started w @ new \<and>
       (\<forall>c \<in> set new. (\<exists>n \<in> set ns. c = cmdPrefix @ n) \<or>
                        (\<exists>rt i. c = cmdPrefix @ rt @ ''-show '' @ i))"
proof (induction ns arbitrary: rs w)
  case Nil
  then show ?case by simp
next
  case (Cons n ns)
  let ?ok = "\<lambda>ms c. (\<exists>n \<in> set ms. c = cmdPrefix @ n) \<or>
                     (\<exists>rt i. c = cmdPrefix @ rt @ ''-show '' @ i)"
  obtain cr w1 where rc: "RunCommand plat (cmdPrefix @ n) w = (cr, w1)"
    by (cases "RunCommand plat (cmdPrefix @ n) w")
  have w1: "started w1 = started w @ [cmdPrefix @ n]"
    using RunCommand_world [OF rc] by simp
  obtain r w2 where ce: "CheckExecution plat fuel cr w1 = (r, w2)"
    by (cases "CheckExecution plat fuel cr w1")
  from CheckExecution_started [OF ce] obtain k rt i
    where w2: "started w2 = started w1 @ replicate k (cmdPrefix @ rt @ ''-show '' @ i)"
    by (auto simp: cmdPrefix_def)
  show ?case
  proof (cases "ExitCode cr \<noteq> 0")
    case True
    with Cons.prems rc have "RunCmds_loop plat fuel ns (rs @ [cr]) w1 = (res, w')" by simp
    from Cons.IH [OF this] obtain new where
      new: "started w' = started w1 @ new" "\<forall>c \<in> set new. ?ok ns c" by blast
    have "started w' = started w @ ((cmdPrefix @ n) # new)" using new w1 by simp
    moreover have "\<forall>c \<in> set ((cmdPrefix @ n) # new). ?ok (n # ns) c"
      using new(2) by auto
    ultimately show ?thesis by blast
  next
    case False
    show ?thesis
    proof (cases r)
      case (Returned x)
      with Cons.prems rc ce False
      have "RunCmds_loop plat fuel ns (rs @ [cr]) w2 = (res, w')" by simp
      from Cons.IH [OF this] obtain new where
        new: "started w' = started w2 @ new" "\<forall>c \<in> set new. ?ok ns c" by blast
      let ?all = "(cmdPrefix @ n) # replicate k (cmdPrefix @ rt @ ''-show '' @ i) @ new"
      have "started w' = started w @ ?all" using new w1 w2 by simp
      moreover have "\<forall>c \<in> set ?all. ?ok (n # ns) c"
        using new(2) by auto
      ultimately show ?thesis by blast
    next
      case Panicked
      with Cons.prems rc ce False have "w' = w2" by simp
      let ?all = "(cmdPrefix @ n) # replicate k (cmdPrefix @ rt @ ''-show '' @ i)"
      have "started w' = started w @ ?all" using \<open>w' = w2\<close> w1 w2 by simp
      moreover have "\<forall>c \<in> set ?all. ?ok (n # ns) c" by auto
      ultimately show ?thesis by blast
    next
      case Unfinished
      with Cons.prems rc ce False have "w' = w2" by simp
      let ?all = "(cmdPrefix @ n) # replicate k (cmdPrefix @ rt @ ''-show '' @ i)"
      have "started w' = started w @ ?all" using \<open>w' = w2\<close> w1 w2 by simp
      moreover have "\<forall>c \<in> set ?all. ?ok (n # ns) c" by auto
      ultimately show ?thesis by blast
    qed
  qed
qed

lemma demo_list_create:
  "RunCmds demo_platform 1 [''loadbalancer-list'', ''loadbalancer-create --name x''] fresh_world =
     (Returned
        [\<lparr>Seq = 0, Command = ''neutron lbaas-loadbalancer-list'', Out = Object (), Err = [],
           ExitCode = 0, Duration = 5, Checked = [], CheckedDuration = 0\<rparr>,
         \<lparr>Seq = 0, Command = ''neutron lbaas-loadbalancer-create --name x'', Out = Object (),
           Err = [], ExitCode = 0, Duration = 5, Checked = [], CheckedDuration = 0\<rparr>],
      \<lparr>started = [''neutron lbaas-loadbalancer-list'',
                  ''neutron lbaas-loadbalancer-create --name x'',
                  ''neutron lbaas-loadbalancer-show abc''],
         ticks = 10\<rparr>)"
  by (simp add: run_eval)

text \<open>
  Claim C10: in every run of \<open>RunCmds\<close> (one that returns, one that panics, and one that is
  still polling when the fuel is used up), every command that is started is the prefix
  \<^verbatim>\<open>neutron lbaas-\<close> followed either by one of the strings of the command list or by a
  resource type, \<^verbatim>\<open>-show\<close> and an id (the Poller's check command). The command run for a
  string of the list is never that string itself, and in a run that returns, the commands
  of the records are the strings of the list, in order, each behind the prefix.
\<close>

theorem RunCmds_commands_prefixed:
  assumes "RunCmds plat fuel cmdList w = (res, w')"
  shows "\<exists>new. started w' = started w @ new \<and>
           (\<forall>c \<in> set new. (\<exists>n \<in> set cmdList. c = cmdPrefix @ n) \<or>
                            (\<exists>rt i. c = cmdPrefix @ rt @ ''-show '' @ i)) \<and>
           (\<forall>n. cmdPrefix @ n \<noteq> n) \<and>
           (\<forall>out. res = Returned out \<longrightarrow> map Command out = map ((@) cmdPrefix) cmdList)"
proof -
  from RunCmds_loop_started [OF assms [unfolded RunCmds_def]] obtain new where
    new: "started w' = started w @ new"
      "\<forall>c \<in> set new. (\<exists>n \<in> set cmdList. c = cmdPrefix @ n) \<or>
                       (\<exists>rt i. c = cmdPrefix @ rt @ ''-show '' @ i)"
    by blast
  have "cmdPrefix @ n \<noteq> n" for n
    by (simp add: cmdPrefix_def)
  moreover have "map Command out = map ((@) cmdPrefix) cmdList" if "res = Returned out" for out
    using RunCmds_loop_appends [of plat fuel cmdList "[]" w out w'] assms that
    by (auto simp: RunCmds_def)
  ultimately show ?thesis using new by blast
qed

theorem RunCmds_commands_prefixed_witness:
  "\<exists>new. [''neutron lbaas-loadbalancer-list'', ''neutron lbaas-loadbalancer-create --name x'',
           ''neutron lbaas-loadbalancer-show abc''] = started fresh_world @ new \<and>
     list_all (\<lambda>c. take 14 c = ''neutron lbaas-'') new"
proof -
  from RunCmds_commands_prefixed [OF demo_list_create] obtain new where
    new: "[''neutron lbaas-loadbalancer-list'', ''neutron lbaas-loadbalancer-create --name x'',
           ''neutron lbaas-loadbalancer-show abc''] = started fresh_world @ new"
    by auto
  then have "new = [''neutron lbaas-loadbalancer-list'',
      ''neutron lbaas-loadbalancer-create --name x'', ''neutron lbaas-loadbalancer-show abc'']"
    by (simp add: fresh_world_def)
  then have "list_all (\<lambda>c. take 14 c = ''neutron lbaas-'') new" by simp
  with new show ?thesis by blast
qed

subsection \<open>A command that cannot be started\<close>

lemma absent_start:
  "spawn absent_platform (length (started fresh_world))
     (Split ''neutron lbaas-loadbalancer-list'' (CHR '' '') @ [''--format'', ''json''])
   = StartFailed ''exec: neutron: executable file not found in $PATH''"
  by (simp add: absent_platform_def)

lemma RunCommand_start_failed:
  assumes "spawn plat (length (started w)) (Split cmd (CHR '' '') @ [''--format'', ''json''])
             = StartFailed e"
    and "RunCommand plat cmd w = (cr, w1)"
  shows "Err cr = e \<and> ExitCode cr = - 1 \<and> Out cr = NilMap \<and> Command cr = cmd"
  using assms by (auto simp: RunCommand_def Let_def)

lemma RunCmds_loop_starts_first:
  assumes "RunCmds_loop plat fuel (m # ms) rs w = (res, w')"
  shows "\<exists>rest. started w' = started w @ (cmdPrefix @ m) # rest"
proof -
  obtain cr w1 where rc: "RunCommand plat (cmdPrefix @ m) w = (cr, w1)"
    by (cases "RunCommand plat (cmdPrefix @ m) w")
  have w1: "started w1 = started w @ [cmdPrefix @ m]"
    using RunCommand_world [OF rc] by simp
  obtain r w2 where ce: "CheckExecution plat fuel cr w1 = (r, w2)"
    by (cases "CheckExecution plat fuel cr w1")
  from CheckExecution_started [OF ce] obtain polled where
    w2: "started w2 = started w1 @ polled" by blast
  show ?thesis
  proof (cases "ExitCode cr \<noteq> 0")
    case True
    with assms rc have "RunCmds_loop plat fuel ms (rs @ [cr]) w1 = (res, w')" by simp
    from RunCmds_loop_started [OF this] obtain new where "started w' = started w1 @ new"
      by blast
    with w1 have "started w' = started w @ (cmdPrefix @ m) # new" by simp
    then show ?thesis ..
  next
    case False
    show ?thesis
    proof (cases r)
      case (Returned x)
      with assms rc ce False have "RunCmds_loop plat fuel ms (rs @ [cr]) w2 = (res, w')" by simp
      from RunCmds_loop_started [OF this] obtain new where "started w' = started w2 @ new"
        by blast
      with w1 w2 have "started w' = started w @ (cmdPrefix @ m) # (polled @ new)" by simp
      then show ?thesis ..
    next
      case Panicked
      with assms rc ce False have "w' = w2" by simp
      with w1 w2 have "started w' = started w @ (cmdPrefix @ m) # polled" by simp
      then show ?thesis ..
    next
      case Unfinished
      with assms rc ce False have "w' = w2" by simp
      with w1 w2 have "started w' = started w @ (cmdPrefix @ m) # polled" by simp
      then show ?thesis ..
    qed
  qed
qed

lemma RunCmds_loop_all_start_failures:
  assumes "\<And>k argv. \<exists>e. spawn plat k argv = StartFailed e"
  shows "\<exists>new w'. RunCmds_loop plat fuel ns rs w = (Returned (rs @ new), w') \<and>
           map Command new = map ((@) cmdPrefix) ns \<and>
           list_all (\<lambda>r. ExitCode r = - 1 \<and> Out r = NilMap) new \<and>
           started w' = started w @ map ((@) cmdPrefix) ns"
proof (induction ns arbitrary: rs w)
  case Nil
  then show ?case by simp
next
  case (Cons n ns)
  obtain cr w1 where rc: "RunCommand plat (cmdPrefix @ n) w = (cr, w1)"
    by (cases "RunCommand plat (cmdPrefix @ n) w")
  from assms obtain e where
    "spawn plat (length (started w)) (Split (cmdPrefix @ n) (CHR '' '') @ [''--format'', ''json''])
       = StartFailed e" by blast
  from RunCommand_start_failed [OF this rc]
  have cr: "ExitCode cr = - 1" "Out cr = NilMap" "Command cr = cmdPrefix @ n" by simp_all
  have w1: "started w1 = started w @ [cmdPrefix @ n]"
    using RunCommand_world [OF rc] by simp
  from Cons.IH [of "rs @ [cr]" w1] obtain new w' where
    new: "RunCmds_loop plat fuel ns (rs @ [cr]) w1 = (Returned ((rs @ [cr]) @ new), w')"
      "map Command new = map ((@) cmdPrefix) ns"
      "list_all (\<lambda>r. ExitCode r = - 1 \<and> Out r = NilMap) new"
      "started w' = started w1 @ map ((@) cmdPrefix) ns"
    by blast
  have "RunCmds_loop plat fuel (n # ns) rs w = (Returned (rs @ (cr # new)), w')"
    using rc cr(1) new(1) by simp
  moreover have "map Command (cr # new) = map ((@) cmdPrefix) (n # ns)"
    using cr(3) new(2) by simp
  moreover have "list_all (\<lambda>r. ExitCode r = - 1 \<and> Out r = NilMap) (cr # new)"
    using cr new(3) by simp
  moreover have "started w' = started w @ map ((@) cmdPrefix) (n # ns)"
    using w1 new(4) by simp
  ultimately show ?case by blast
qed

text \<open>
  Claim C4: when the executable of a command fails to start, and the start error has a
  description, \<open>RunCommand\<close> returns a record with a non-empty error text and the exit code
  \<open>-1\<close> of a process that never started (and no output object). The run does not stop
  there. Wherever \<open>RunCmds\<close> reaches such a command, it appends the record and skips the
  Poller; if the command is the last one the run returns, and otherwise the next command
  of the list is started, whatever becomes of the run afterwards; every collection that is
  returned holds the record at the command's position, followed by one record for each
  later command. When no executable can be started at all, the run returns one record for
  every command of the list, each command having been tried in order.
\<close>

theorem start_failure_recorded_and_skipped:
  assumes "spawn plat (length (started w)) (Split cmd (CHR '' '') @ [''--format'', ''json''])
             = StartFailed e"
    and "e \<noteq> []"
  shows "\<exists>cr w1. RunCommand plat cmd w = (cr, w1) \<and>
           Err cr \<noteq> [] \<and> ExitCode cr = - 1 \<and> Out cr = NilMap \<and>
           (\<forall>fuel n ns rs. cmd = cmdPrefix @ n \<longrightarrow>
              RunCmds_loop plat fuel (n # ns) rs w = RunCmds_loop plat fuel ns (rs @ [cr]) w1) \<and>
           (\<forall>fuel n ns rs res w'. cmd = cmdPrefix @ n \<longrightarrow>
              RunCmds_loop plat fuel (n # ns) rs w = (res, w') \<longrightarrow>
                (ns = [] \<longrightarrow> res = Returned (rs @ [cr]) \<and> started w' = started w @ [cmd]) \<and>
                (\<forall>m ms. ns = m # ms \<longrightarrow>
                   (\<exists>rest. started w' = started w @ cmd # (cmdPrefix @ m) # rest)) \<and>
                (\<forall>out. res = Returned out \<longrightarrow>
                   (\<exists>later. out = rs @ cr # later \<and> length later = length ns))) \<and>
           (\<forall>fuel n ns rs. cmd = cmdPrefix @ n \<longrightarrow>
              (\<forall>k argv. \<exists>e'. spawn plat k argv = StartFailed e') \<longrightarrow>
                (\<exists>later w'. RunCmds_loop plat fuel (n # ns) rs w = (Returned (rs @ cr # later), w') \<and>
                   map Command later = map ((@) cmdPrefix) ns \<and>
                   list_all (\<lambda>r. ExitCode r = - 1 \<and> Out r = NilMap) later \<and>
                   started w' = started w @ cmd # map ((@) cmdPrefix) ns))"
proof -
  obtain cr w1 where rc: "RunCommand plat cmd w = (cr, w1)"
    by (cases "RunCommand plat cmd w")
  from RunCommand_start_failed [OF assms(1) rc]
  have cr: "Err cr = e" "ExitCode cr = - 1" "Out cr = NilMap" by simp_all
  have w1: "started w1 = started w @ [cmd]"
    using RunCommand_world [OF rc] by simp
  have step: "RunCmds_loop plat fuel (n # ns) rs w = RunCmds_loop plat fuel ns (rs @ [cr]) w1"
    if "cmd = cmdPrefix @ n" for fuel n ns rs
    using that rc cr(2) by simp
  have run: "(ns = [] \<longrightarrow> res = Returned (rs @ [cr]) \<and> started w' = started w @ [cmd]) \<and>
      (\<forall>m ms. ns = m # ms \<longrightarrow> (\<exists>rest. started w' = started w @ cmd # (cmdPrefix @ m) # rest)) \<and>
      (\<forall>out. res = Returned out \<longrightarrow> (\<exists>later. out = rs @ cr # later \<and> length later = length ns))"
    if n: "cmd = cmdPrefix @ n" and r: "RunCmds_loop plat fuel (n # ns) rs w = (res, w')"
    for fuel n ns rs res w'
  proof -
    from step [OF n] r have r1: "RunCmds_loop plat fuel ns (rs @ [cr]) w1 = (res, w')" by simp
    have a: "res = Returned (rs @ [cr]) \<and> started w' = started w @ [cmd]" if "ns = []"
      using r1 that w1 by auto
    have b: "\<exists>rest. started w' = started w @ cmd # (cmdPrefix @ m) # rest" if "ns = m # ms" for m ms
    proof -
      from RunCmds_loop_starts_first [OF r1 [unfolded that]] obtain rest where
        "started w' = started w1 @ (cmdPrefix @ m) # rest" ..
      with w1 have "started w' = started w @ cmd # (cmdPrefix @ m) # rest" by simp
      then show ?thesis ..
    qed
    have c: "\<exists>later. out = rs @ cr # later \<and> length later = length ns" if "res = Returned out" for out
    proof -
      from RunCmds_loop_appends [OF r1 [unfolded that]] obtain new where
        "out = (rs @ [cr]) @ new" "length new = length ns" by blast
      then have "out = rs @ cr # new \<and> length new = length ns" by simp
      then show ?thesis ..
    qed
    from a b c show ?thesis by blast
  qed
  have batch: "\<exists>later w'. RunCmds_loop plat fuel (n # ns) rs w = (Returned (rs @ cr # later), w') \<and>
      map Command later = map ((@) cmdPrefix) ns \<and>
      list_all (\<lambda>r. ExitCode r = - 1 \<and> Out r = NilMap) later \<and>
      started w' = started w @ cmd # map ((@) cmdPrefix) ns"
    if n: "cmd = cmdPrefix @ n" and all: "\<forall>k argv. \<exists>e'. spawn plat k argv = StartFailed e'"
    for fuel n ns rs
  proof -
    from all have "\<And>k argv. \<exists>e. spawn plat k argv = StartFailed e" by blast
    from RunCmds_loop_all_start_failures [OF this, of fuel ns "rs @ [cr]" w1]
    obtain new w' where
      "RunCmds_loop plat fuel ns (rs @ [cr]) w1 = (Returned ((rs @ [cr]) @ new), w')"
      "map Command new = map ((@) cmdPrefix) ns"
      "list_all (\<lambda>r. ExitCode r = - 1 \<and> Out r = NilMap) new"
      "started w' = started w1 @ map ((@) cmdPrefix) ns"
      by blast
    with step [OF n] w1 show ?thesis by auto
  qed
  have N: "Err cr \<noteq> []" using cr(1) assms(2) by simp
  have A: "\<forall>fuel n ns rs. cmd = cmdPrefix @ n \<longrightarrow>
      RunCmds_loop plat fuel (n # ns) rs w = RunCmds_loop plat fuel ns (rs @ [cr]) w1"
    by (intro allI impI) (rule step)
  have B: "\<forall>fuel n ns rs res w'. cmd = cmdPrefix @ n \<longrightarrow>
      RunCmds_loop plat fuel (n # ns) rs w = (res, w') \<longrightarrow>
        (ns = [] \<longrightarrow> res = Returned (rs @ [cr]) \<and> started w' = started w @ [cmd]) \<and>
        (\<forall>m ms. ns = m # ms \<longrightarrow>
           (\<exists>rest. started w' = started w @ cmd # (cmdPrefix @ m) # rest)) \<and>
        (\<forall>out. res = Returned out \<longrightarrow>
           (\<exists>later. out = rs @ cr # later \<and> length later = length ns))"
    by (intro allI impI) (rule run)
  have C: "\<forall>fuel n ns rs. cmd = cmdPrefix @ n \<longrightarrow>
      (\<forall>k argv. \<exists>e'. spawn plat k argv = StartFailed e') \<longrightarrow>
        (\<exists>later w'. RunCmds_loop plat fuel (n # ns) rs w = (Returned (rs @ cr # later), w') \<and>
           map Command later = map ((@) cmdPrefix) ns \<and>
           list_all (\<lambda>r. ExitCode r = - 1 \<and> Out r = NilMap) later \<and>
           started w' = started w @ cmd # map ((@) cmdPrefix) ns)"
    by (intro allI impI) (rule batch)
  show ?thesis
    by (rule exI [of _ cr], rule exI [of _ w1], intro conjI) (rule rc N cr(2) cr(3) A B C)+
qed

lemma absent_always: "\<forall>k argv. \<exists>e'. spawn absent_platform k argv = StartFailed e'"
  by (simp add: absent_platform_def)

theorem start_failure_recorded_and_skipped_witness:
  "\<exists>cr later w'.
     fst (RunCommand absent_platform ''neutron lbaas-loadbalancer-list'' fresh_world) = cr \<and>
     Err cr \<noteq> [] \<and> ExitCode cr = - 1 \<and>
     RunCmds absent_platform 0 [''loadbalancer-list'', ''pool-list''] fresh_world
       = (Returned (cr # later), w') \<and>
     map Command later = [''neutron lbaas-pool-list''] \<and>
     started w' = [''neutron lbaas-loadbalancer-list'', ''neutron lbaas-pool-list'']"
proof -
  have e: "''exec: neutron: executable file not found in $PATH'' \<noteq> []" by simp
  note t = start_failure_recorded_and_skipped [OF absent_start e]
  from t obtain cr w1 where
    H: "RunCommand absent_platform ''neutron lbaas-loadbalancer-list'' fresh_world = (cr, w1) \<and>
        Err cr \<noteq> [] \<and> ExitCode cr = - 1 \<and> Out cr = NilMap \<and>
        (\<forall>fuel n ns rs. ''neutron lbaas-loadbalancer-list'' = cmdPrefix @ n \<longrightarrow>
           RunCmds_loop absent_platform fuel (n # ns) rs fresh_world
             = RunCmds_loop absent_platform fuel ns (rs @ [cr]) w1) \<and>
        (\<forall>fuel n ns rs res w'. ''neutron lbaas-loadbalancer-list'' = cmdPrefix @ n \<longrightarrow>
           RunCmds_loop absent_platform fuel (n # ns) rs fresh_world = (res, w') \<longrightarrow>
             (ns = [] \<longrightarrow> res = Returned (rs @ [cr]) \<and>
                started w' = started fresh_world @ [''neutron lbaas-loadbalancer-list'']) \<and>
             (\<forall>m ms. ns = m # ms \<longrightarrow>
                (\<exists>rest. started w' = started fresh_world @
                   ''neutron lbaas-loadbalancer-list'' # (cmdPrefix @ m) # rest)) \<and>
             (\<forall>out. res = Returned out \<longrightarrow>
                (\<exists>later. out = rs @ cr # later \<and> length later = length ns))) \<and>
        (\<forall>fuel n ns rs. ''neutron lbaas-loadbalancer-list'' = cmdPrefix @ n \<longrightarrow>
           (\<forall>k argv. \<exists>e'. spawn absent_platform k argv = StartFailed e') \<longrightarrow>
             (\<exists>later w'. RunCmds_loop absent_platform fuel (n # ns) rs fresh_world
                  = (Returned (rs @ cr # later), w') \<and>
                map Command later = map ((@) cmdPrefix) ns \<and>
                list_all (\<lambda>r. ExitCode r = - 1 \<and> Out r = NilMap) later \<and>
                started w' = started fresh_world @
                  ''neutron lbaas-loadbalancer-list'' # map ((@) cmdPrefix) ns))"
    by (elim exE) (rule that)
  note rc = H [THEN conjunct1]
  note err = H [THEN conjunct2, THEN conjunct1]
  note code = H [THEN conjunct2, THEN conjunct2, THEN conjunct1]
  note batch = H [THEN conjunct2, THEN conjunct2, THEN conjunct2, THEN conjunct2, THEN conjunct2,
      THEN conjunct2, rule_format]
  have n: "''neutron lbaas-loadbalancer-list'' = cmdPrefix @ ''loadbalancer-list''"
    by (simp add: cmdPrefix_def)
  from batch [OF n absent_always [rule_format], of 0 "[''pool-list'']" "[]"]
  obtain later w' where
    L: "RunCmds_loop absent_platform 0 [''loadbalancer-list'', ''pool-list''] [] fresh_world
          = (Returned ([] @ cr # later), w')"
      "map Command later = map ((@) cmdPrefix) [''pool-list'']"
      "started w' = started fresh_world @
         ''neutron lbaas-loadbalancer-list'' # map ((@) cmdPrefix) [''pool-list'']"
    by (elim exE conjE) (rule that)
  have "fst (RunCommand absent_platform ''neutron lbaas-loadbalancer-list'' fresh_world) = cr"
    using rc by simp
  moreover have "RunCmds absent_platform 0 [''loadbalancer-list'', ''pool-list''] fresh_world
       = (Returned (cr # later), w')"
    using L(1) by (simp add: RunCmds_def)
  moreover have "map Command later = [''neutron lbaas-pool-list'']"
    using L(2) by (simp add: cmdPrefix_def)
  moreover have "started w' = [''neutron lbaas-loadbalancer-list'', ''neutron lbaas-pool-list'']"
    using L(3) by (simp add: cmdPrefix_def fresh_world_def)
  ultimately have "fst (RunCommand absent_platform ''neutron lbaas-loadbalancer-list'' fresh_world) = cr \<and>
     Err cr \<noteq> [] \<and> ExitCode cr = - 1 \<and>
     RunCmds absent_platform 0 [''loadbalancer-list'', ''pool-list''] fresh_world
       = (Returned (cr # later), w') \<and>
     map Command later = [''neutron lbaas-pool-list''] \<and>
     started w' = [''neutron lbaas-loadbalancer-list'', ''neutron lbaas-pool-list'']"
    using err code by simp
  then show ?thesis by (intro exI)
qed

section \<open>Properties of the Value-List Parser\<close>

subsection \<open>The range loop\<close>

lemma int64_id: "- (2 ^ 63) \<le> x \<Longrightarrow> x < 2 ^ 63 \<Longrightarrow> int64 x = x"
  by (simp add: int64_def)

lemma range_loop_finite:
  "e < MaxInt \<Longrightarrow> - (2 ^ 63) \<le> i \<Longrightarrow> range_loop i e rlt = Some (rlt @ map Sprintf_d [i..e])"
proof (induction "nat (e + 1 - i)" arbitrary: i rlt)
  case 0
  then have "\<not> i \<le> e" by simp
  then show ?case by (simp add: range_loop.simps)
next
  case (Suc k)
  then have le: "i \<le> e" by simp
  with Suc.prems have "int64 (i + 1) = i + 1"
    by (intro int64_id) (auto simp: MaxInt_def)
  moreover have "range_loop (i + 1) e (rlt @ [Sprintf_d i]) = Some ((rlt @ [Sprintf_d i]) @ map Sprintf_d [i + 1..e])"
    using Suc by (intro Suc.hyps) auto
  ultimately show ?case
    using le by (subst range_loop.simps) (simp add: upto_rec1 [of i e])
qed




subsection \<open>Range tokens\<close>

lemma not_digit_hyphen: "\<not> is_digit (CHR ''-'')"
  by (simp add: is_digit_def)

lemma range_token_parts:
  assumes "range_token n"
  shows "n = fst (range_parts n) @ ''-'' @ snd (range_parts n)"
    and "fst (range_parts n) \<noteq> []" and "snd (range_parts n) \<noteq> []"
    and "list_all is_digit (fst (range_parts n))" and "list_all is_digit (snd (range_parts n))"
proof -
  from assms obtain b where d: "dropWhile is_digit n = CHR ''-'' # b" and b: "b \<noteq> []" "list_all is_digit b"
    and a: "takeWhile is_digit n \<noteq> []"
    by (auto simp: range_token_def split: list.splits)
  have "n = takeWhile is_digit n @ dropWhile is_digit n" by simp
  with d show "n = fst (range_parts n) @ ''-'' @ snd (range_parts n)"
    by (simp add: range_parts_def)
  show "fst (range_parts n) \<noteq> []" using a by (simp add: range_parts_def)
  show "snd (range_parts n) \<noteq> []" using b d by (simp add: range_parts_def)
  show "list_all is_digit (fst (range_parts n))"
    by (simp add: range_parts_def list_all_iff) (meson set_takeWhileD)
  show "list_all is_digit (snd (range_parts n))" using b d by (simp add: range_parts_def)
qed

lemma range_token_Split:
  assumes "range_token n"
  shows "Split n (CHR ''-'') = [fst (range_parts n), snd (range_parts n)]"
proof -
  let ?a = "fst (range_parts n)" and ?b = "snd (range_parts n)"
  note p = range_token_parts [OF assms]
  have na: "CHR ''-'' \<notin> set ?a" and nb: "CHR ''-'' \<notin> set ?b"
    using p(4,5) not_digit_hyphen by (auto simp: list_all_iff)
  have "Split (Join [?a, ?b] ''-'') (CHR ''-'') = [?a, ?b]"
    using na nb by (intro Split_Join) auto
  with p(1) show ?thesis by simp
qed

lemma Atoi_digits:
  assumes "ds \<noteq> []" "list_all is_digit ds"
  shows "Atoi ds = (if int (decimal ds) \<le> MaxInt then (int (decimal ds), None) else (MaxInt, Some ErrRange))"
proof -
  from assms obtain c cs where ds: "ds = c # cs" and c: "is_digit c"
    by (cases ds) auto
  from c have "c \<noteq> CHR ''+''" "c \<noteq> CHR ''-''"
    by (auto simp: is_digit_def)
  with assms ds show ?thesis
    by (simp add: Atoi_def Atoi_unsigned_def)
qed






lemmas pv_eval = ParseVarValues_def ParseVarValues_token_def Split_def range_token_def is_digit_def
  Atoi_def Atoi_unsigned_def decimal_def digit_val_def MaxInt_def int64_def Sprintf_d_def
  digits10.simps range_loop.simps range_parts_def spec_values_def




subsection \<open>Parts that fail integer parsing\<close>

text \<open>The claim as stated fails: \<open>strconv.Atoi\<close> reports a range error for the first part of
  \<^verbatim>\<open>9223372036854775808-5\<close>, and the parser returns normally, the token having contributed
  nothing.\<close>

theorem ParseVarValues_swallows_range_error:
  "Atoi ''9223372036854775808'' = (MaxInt, Some ErrRange) \<and>
   ParseVarValues ''9223372036854775808-5,x'' = Some [''x'']"
  by (simp add: pv_eval)

text \<open>
  Claim C5, amended: for every token of the shape digits-hyphen-digits the Value-List
  Parser runs its range loop on the values \<open>strconv.Atoi\<close> returns for the two parts and
  drops the errors; a part that fails integer parsing is thereby read as the largest
  integer \<open>2^63 - 1\<close>, no error reaches the caller, and a token whose first part fails while
  its second part is a smaller integer contributes no values.
\<close>

theorem ParseVarValues_token_discards_errors:
  assumes "range_token n"
    and "a = Split n (CHR ''-'') ! 0" and "b = Split n (CHR ''-'') ! 1"
  shows "ParseVarValues_token n rlt = range_loop (fst (Atoi a)) (fst (Atoi b)) rlt \<and>
         (snd (Atoi a) \<noteq> None \<longrightarrow> fst (Atoi a) = MaxInt) \<and>
         (snd (Atoi b) \<noteq> None \<longrightarrow> fst (Atoi b) = MaxInt) \<and>
         (snd (Atoi a) \<noteq> None \<longrightarrow> snd (Atoi b) = None \<longrightarrow> fst (Atoi b) < MaxInt \<longrightarrow>
            ParseVarValues_token n rlt = Some rlt)"
proof -
  note p = range_token_parts [OF assms(1)]
  have ab: "a = fst (range_parts n)" "b = snd (range_parts n)"
    using assms by (simp_all add: range_token_Split)
  note A = Atoi_digits [OF p(2) p(4)] and B = Atoi_digits [OF p(3) p(5)]
  have 1: "ParseVarValues_token n rlt = range_loop (fst (Atoi a)) (fst (Atoi b)) rlt"
    using assms by (simp add: ParseVarValues_token_def Let_def)
  have 2: "fst (Atoi a) = MaxInt" if "snd (Atoi a) \<noteq> None"
    using that A ab by (auto split: if_splits)
  have 3: "fst (Atoi b) = MaxInt" if "snd (Atoi b) \<noteq> None"
    using that B ab by (auto split: if_splits)
  have 4: "ParseVarValues_token n rlt = Some rlt"
    if "snd (Atoi a) \<noteq> None" "fst (Atoi b) < MaxInt"
  proof -
    have "range_loop MaxInt (fst (Atoi b)) rlt = Some (rlt @ map Sprintf_d [MaxInt .. fst (Atoi b)])"
      using that(2) by (intro range_loop_finite) (auto simp: MaxInt_def)
    with 1 2 that show ?thesis by simp
  qed
  from 1 2 3 4 show ?thesis by blast
qed

lemma big_start_token: "range_token ''9223372036854775808-5''"
  by (simp add: range_token_def is_digit_def)

theorem ParseVarValues_token_discards_errors_witness:
  "ParseVarValues_token ''9223372036854775808-5'' [''q''] = Some [''q'']"
  using ParseVarValues_token_discards_errors
          [OF big_start_token refl refl, of "[''q'']", THEN conjunct2, THEN conjunct2,
           THEN conjunct2]
  by (simp add: Split_def Atoi_def Atoi_unsigned_def is_digit_def decimal_def digit_val_def
      MaxInt_def)

section \<open>Properties of the Template Expander\<close>

lemma ident_char_not_special:
  "\<not> ident_char (CHR ''%'')" "\<not> ident_char (CHR 0x7D)" "\<not> ident_char (CHR 0x7B)"
  by (simp_all add: ident_char_def ident_start_def is_digit_def)

lemma ident_start_char: "ident_start c \<Longrightarrow> ident_char c"
  by (simp add: ident_char_def)

lemma is_ident_chars: "is_ident x \<Longrightarrow> list_all ident_char x \<and> x \<noteq> []"
  by (cases x) (auto simp: is_ident_def ident_start_char)

lemma is_ident_no_special:
  assumes "is_ident x"
  shows "CHR ''%'' \<notin> set x" "CHR 0x7D \<notin> set x"
  using is_ident_chars [OF assms] ident_char_not_special by (auto simp: list_all_iff)

lemma takeWhile_run: "list_all P cs \<Longrightarrow> \<not> P d \<Longrightarrow> takeWhile P (cs @ d # rest) = cs"
  by (induction cs) auto

lemma dropWhile_run: "list_all P cs \<Longrightarrow> \<not> P d \<Longrightarrow> dropWhile P (cs @ d # rest) = d # rest"
  by (induction cs) auto

lemma match_var_not_percent: "c \<noteq> CHR ''%'' \<Longrightarrow> match_var (c # s) = None"
  by (simp add: match_var_def split: list.splits)

lemma match_var_token:
  assumes "is_ident x"
  shows "match_var (token x @ rest) = Some (token x)"
proof -
  from assms obtain c cs where x: "x = c # cs" and c: "ident_start c" and cs: "list_all ident_char cs"
    by (cases x) (auto simp: is_ident_def)
  have "token x @ rest = CHR ''%'' # CHR 0x7B # c # (cs @ CHR 0x7D # rest)"
    by (simp add: token_def x)
  then show ?thesis
    using c by (simp add: match_var_def takeWhile_run [OF cs ident_char_not_special(2)]
        dropWhile_run [OF cs ident_char_not_special(2)] token_def x)
qed

lemma match_var_SomeD:
  assumes "match_var s = Some m"
  shows "\<exists>x rest. is_ident x \<and> m = token x \<and> s = m @ rest"
proof -
  from assms obtain c3 rest0 d r where
    s: "s = CHR ''%'' # CHR 0x7B # c3 # rest0" and c3: "ident_start c3"
    and d: "dropWhile ident_char rest0 = d # r" "d = CHR 0x7D"
    and m: "m = CHR ''%'' # CHR 0x7B # c3 # takeWhile ident_char rest0 @ [d]"
    by (auto simp: match_var_def split: list.splits if_splits)
  let ?x = "c3 # takeWhile ident_char rest0"
  have "list_all ident_char (takeWhile ident_char rest0)"
    by (simp add: list_all_iff) (meson set_takeWhileD)
  with c3 have "is_ident ?x" by (simp add: is_ident_def)
  moreover have "m = token ?x" using m d by (simp add: token_def)
  moreover have "rest0 = takeWhile ident_char rest0 @ d # r"
    using d(1) by (metis takeWhile_dropWhile_id)
  then have "s = m @ r" using s m by simp
  ultimately show ?thesis by blast
qed

lemma FindString_no_percent: "CHR ''%'' \<notin> set l \<Longrightarrow> FindString (l @ s) = FindString s"
  by (induction l) (auto simp: match_var_not_percent)

lemma token_Cons: "token x = CHR ''%'' # CHR 0x7B # x @ [CHR 0x7D]"
  by (simp add: token_def)

lemma FindString_token: "is_ident x \<Longrightarrow> FindString (token x @ s) = token x"
  using match_var_token [of x s] by (simp add: token_Cons)

lemma FindString_render:
  "list_all wf_seg segs \<Longrightarrow>
     FindString (render segs) = (case vars_of segs of [] \<Rightarrow> [] | x # _ \<Rightarrow> token x)"
proof (induction segs)
  case Nil
  then show ?case by simp
next
  case (Cons a segs)
  then show ?case
    by (cases a) (auto simp: FindString_no_percent FindString_token)
qed

lemma prefix_name_eq:
  "CHR 0x7D \<notin> set x \<Longrightarrow> CHR 0x7D \<notin> set y \<Longrightarrow>
     prefix (x @ [CHR 0x7D]) (y @ CHR 0x7D # s) \<Longrightarrow> x = y"
proof (induction x arbitrary: y)
  case Nil
  then show ?case by (cases y) auto
next
  case (Cons a x)
  then show ?case by (cases y) auto
qed

lemma RAS_not_percent:
  "c \<noteq> CHR ''%'' \<Longrightarrow> ReplaceAllString (token x) (c # s) k = c # ReplaceAllString (token x) s k"
  by (simp add: token_Cons)

lemma RAS_no_percent_append:
  "CHR ''%'' \<notin> set l \<Longrightarrow>
     ReplaceAllString (token x) (l @ s) k = l @ ReplaceAllString (token x) s k"
proof (induction l)
  case Nil
  then show ?case by simp
next
  case (Cons a l)
  then have "a \<noteq> CHR ''%''" by auto
  from RAS_not_percent [OF this] Cons show ?case by simp
qed

lemma RAS_same: "ReplaceAllString (token x) (token x @ s) k = k @ ReplaceAllString (token x) s k"
proof -
  have "token x @ s = CHR ''%'' # (CHR 0x7B # x @ [CHR 0x7D]) @ s" by (simp add: token_Cons)
  moreover have "prefix (token x) (token x @ s)" by simp
  moreover have "drop (length (token x)) (token x @ s) = s" by simp
  moreover have "token x \<noteq> []" by (simp add: token_Cons)
  ultimately show ?thesis
    by (metis ReplaceAllString.simps(2))
qed

lemma RAS_other:
  assumes "is_ident x" "is_ident y" "y \<noteq> x"
  shows "ReplaceAllString (token x) (token y @ s) k = token y @ ReplaceAllString (token x) s k"
proof -
  have np: "\<not> prefix (token x) (token y @ s)"
    using prefix_name_eq [of x y s] is_ident_no_special(2) [OF assms(1)]
      is_ident_no_special(2) [OF assms(2)] assms(3)
    by (auto simp: token_Cons)
  have tl: "CHR ''%'' \<notin> set (CHR 0x7B # y @ [CHR 0x7D])"
    using is_ident_no_special(1) [OF assms(2)] by simp
  have "ReplaceAllString (token x) (token y @ s) k
      = CHR ''%'' # ReplaceAllString (token x) ((CHR 0x7B # y @ [CHR 0x7D]) @ s) k"
    using np by (simp add: token_Cons [of y])
  also have "\<dots> = CHR ''%'' # (CHR 0x7B # y @ [CHR 0x7D]) @ ReplaceAllString (token x) s k"
    by (simp only: RAS_no_percent_append [OF tl])
  finally show ?thesis by (simp add: token_Cons [of y])
qed

lemma RAS_render:
  "list_all wf_seg segs \<Longrightarrow> is_ident x \<Longrightarrow>
     ReplaceAllString (token x) (render segs) k = render (subst x k segs)"
proof (induction segs)
  case Nil
  then show ?case by (simp add: subst_def)
next
  case (Cons a segs)
  then have IH: "ReplaceAllString (token x) (render segs) k = render (subst x k segs)" by simp
  show ?case
  proof (cases a)
    case (Lit l)
    with Cons.prems IH show ?thesis by (simp add: RAS_no_percent_append subst_def)
  next
    case (Var y)
    show ?thesis
    proof (cases "y = x")
      case True
      with Var IH show ?thesis by (simp add: RAS_same subst_def)
    next
      case False
      with Var Cons.prems IH show ?thesis by (simp add: RAS_other subst_def)
    qed
  qed
qed

lemma wf_subst:
  "CHR ''%'' \<notin> set k \<Longrightarrow> list_all wf_seg segs \<Longrightarrow> list_all wf_seg (subst x k segs)"
  by (induction segs) (auto simp: subst_def)

lemma vars_of_subst: "vars_of (subst x k segs) = filter (\<lambda>y. y \<noteq> x) (vars_of segs)"
proof (induction segs)
  case Nil
  then show ?case by (simp add: subst_def)
next
  case (Cons a segs)
  then show ?case by (cases a) (auto simp: subst_def)
qed


lemma slice_token:
  "slice (token x) 2 (length (token x) - 1) = x"
  "slice (token x) 2 (length (token x) - Suc 0) = x"
  by (simp_all add: slice_def token_def)

lemma token_not_Nil: "token x \<noteq> []"
  by (simp add: token_def)

lemma wf_template_append: "wf_template (a @ b) \<Longrightarrow> wf_template b"
  by (induction a) auto

lemma wf_template_segs:
  "wf_template t \<Longrightarrow> \<exists>segs. list_all wf_seg segs \<and> render segs = t"
proof (induction "length t" arbitrary: t rule: less_induct)
  case less
  show ?case
  proof (cases t)
    case Nil
    have "list_all wf_seg [] \<and> render [] = t" using Nil by simp
    then show ?thesis by blast
  next
    case (Cons c cs)
    show ?thesis
    proof (cases "c = CHR ''%''")
      case False
      from less.prems Cons have "wf_template cs" by simp
      with less.hyps [of cs] Cons obtain segs where segs: "list_all wf_seg segs" "render segs = cs"
        by auto
      with False Cons have "list_all wf_seg (Lit [c] # segs) \<and> render (Lit [c] # segs) = t"
        by simp
      then show ?thesis by blast
    next
      case True
      with less.prems Cons obtain m where "match_var t = Some m" by auto
      from match_var_SomeD [OF this] obtain x rest where
        x: "is_ident x" "m = token x" "t = m @ rest" by blast
      have "wf_template rest" using less.prems x(3) wf_template_append by blast
      moreover have "length rest < length t" using x by (simp add: token_def)
      ultimately obtain segs where segs: "list_all wf_seg segs" "render segs = rest"
        using less.hyps by blast
      with x have "list_all wf_seg (Var x # segs) \<and> render (Var x # segs) = t" by simp
      then show ?thesis by blast
    qed
  qed
qed

lemma all_matches_no_percent: "CHR ''%'' \<notin> set l \<Longrightarrow> all_matches (l @ s) = all_matches s"
  by (induction l) (auto simp: match_var_not_percent)

lemma all_matches_token:
  assumes "is_ident x"
  shows "all_matches (token x @ s) = token x # all_matches s"
proof -
  have "CHR ''%'' \<notin> set (CHR 0x7B # x @ [CHR 0x7D])"
    using is_ident_no_special(1) [OF assms] by simp
  from all_matches_no_percent [OF this, of s] match_var_token [OF assms, of s]
  show ?thesis by (simp add: token_Cons)
qed

lemma all_matches_render:
  "list_all wf_seg segs \<Longrightarrow> all_matches (render segs) = map token (vars_of segs)"
proof (induction segs)
  case Nil
  then show ?case by simp
next
  case (Cons a segs)
  then show ?case by (cases a) (auto simp: all_matches_no_percent all_matches_token)
qed

lemma used_names_render:
  "list_all wf_seg segs \<Longrightarrow> used_names (render segs) = remdups (vars_of segs)"
  by (simp add: used_names_def all_matches_render comp_def slice_token)

lemma vars_of_ident: "list_all wf_seg segs \<Longrightarrow> list_all is_ident (vars_of segs)"
proof (induction segs)
  case Nil
  then show ?case by simp
next
  case (Cons a segs)
  then show ?case by (cases a) auto
qed

lemma for_each_appends:
  assumes "\<And>k acc. k \<in> set ks \<Longrightarrow>
      \<exists>out. body k acc = Some (acc @ out) \<and> length out = c \<and> list_all Q out"
  shows "\<exists>out. for_each body ks acc = Some (acc @ out) \<and> length out = length ks * c \<and> list_all Q out"
  using assms
proof (induction ks arbitrary: acc)
  case Nil
  then show ?case by simp
next
  case (Cons k ks)
  from Cons.prems [of k acc] obtain o1 where
    o1: "body k acc = Some (acc @ o1)" "length o1 = c" "list_all Q o1" by auto
  from Cons.IH [of "acc @ o1"] Cons.prems obtain o2 where
    o2: "for_each body ks (acc @ o1) = Some ((acc @ o1) @ o2)" "length o2 = length ks * c"
      "list_all Q o2" by auto
  have "for_each body (k # ks) acc = Some (acc @ (o1 @ o2))"
    using o1 o2 by simp
  moreover have "length (o1 @ o2) = length (k # ks) * c" using o1 o2 by simp
  moreover have "list_all Q (o1 @ o2)" using o1 o2 by simp
  ultimately show ?case by blast
qed

lemma for_each_same:
  "(\<And>k s. k \<in> set ks \<Longrightarrow> f k s = g k s) \<Longrightarrow> for_each f ks s = for_each g ks s"
proof (induction ks arbitrary: s)
  case Nil
  then show ?case by simp
next
  case (Cons k ks)
  have "for_each f ks = for_each g ks"
    using Cons by (intro ext) auto
  with Cons.prems [of k s] show ?case by simp
qed

lemma expand_plain: "plain k \<Longrightarrow> expand_replacement ex k m = k"
  by (simp add: expand_replacement_def plain_def)

lemma CFT_step:
  assumes "list_all wf_seg segs" and "vars_of segs = x # rest"
    and "list_all plain (values_of V x)"
  shows "ConstructFromTemplate ex V (render segs) acc =
           for_each (\<lambda>k cl. ConstructFromTemplate ex V (render (subst x k segs)) cl)
             (values_of V x) acc"
proof -
  have x: "is_ident x" using vars_of_ident [OF assms(1)] assms(2) by simp
  have F: "FindString (render segs) = token x"
    using FindString_render [OF assms(1)] assms(2) by simp
  have "ConstructFromTemplate ex V (render segs) acc =
      for_each (\<lambda>k cl. ConstructFromTemplate ex V
          (ReplaceAllString (token x) (render segs) (expand_replacement ex k (token x))) cl)
        (values_of V x) acc"
    by (subst ConstructFromTemplate.simps) (simp add: F slice_token Let_def token_not_Nil)
  also have "\<dots> = for_each (\<lambda>k cl. ConstructFromTemplate ex V (render (subst x k segs)) cl)
        (values_of V x) acc"
  proof (rule for_each_same)
    fix k s assume "k \<in> set (values_of V x)"
    with assms(3) have "plain k" by (simp add: list_all_iff)
    then show "ConstructFromTemplate ex V
          (ReplaceAllString (token x) (render segs) (expand_replacement ex k (token x))) s
        = ConstructFromTemplate ex V (render (subst x k segs)) s"
      by (simp add: expand_plain RAS_render [OF assms(1) x])
  qed
  finally show ?thesis .
qed

lemma CFT_done:
  assumes "list_all wf_seg segs" and "vars_of segs = []"
  shows "ConstructFromTemplate ex V (render segs) acc = Some (acc @ [render segs])"
    and "FindString (render segs) = []"
proof -
  show F: "FindString (render segs) = []"
    using FindString_render [OF assms(1)] assms(2) by simp
  show "ConstructFromTemplate ex V (render segs) acc = Some (acc @ [render segs])"
    by (subst ConstructFromTemplate.simps) (simp add: F)
qed

lemma CFT_render_count:
  assumes "list_all wf_seg segs"
    and "\<forall>x \<in> set (vars_of segs). list_all plain (values_of V x)"
  shows "\<exists>out. ConstructFromTemplate ex V (render segs) acc = Some (acc @ out) \<and>
           length out = (\<Prod>x \<in> set (vars_of segs). length (values_of V x)) \<and>
           list_all (\<lambda>c. FindString c = []) out"
  using assms
proof (induction "length (vars_of segs)" arbitrary: segs acc rule: less_induct)
  case less
  show ?case
  proof (cases "vars_of segs")
    case Nil
    from CFT_done(1) [OF less.prems(1) Nil, of ex V acc] CFT_done(2) [OF less.prems(1) Nil] Nil
    have "ConstructFromTemplate ex V (render segs) acc = Some (acc @ [render segs]) \<and>
        length [render segs] = (\<Prod>x \<in> set (vars_of segs). length (values_of V x)) \<and>
        list_all (\<lambda>c. FindString c = []) [render segs]"
      by simp
    then show ?thesis by blast
  next
    case (Cons x rest)
    let ?rem = "set (vars_of segs) - {x}"
    let ?c = "\<Prod>y \<in> ?rem. length (values_of V y)"
    have px: "list_all plain (values_of V x)" using less.prems(2) Cons by simp
    have inner: "\<exists>out. ConstructFromTemplate ex V (render (subst x k segs)) a = Some (a @ out) \<and>
        length out = ?c \<and> list_all (\<lambda>c. FindString c = []) out"
      if k: "k \<in> set (values_of V x)" for k a
    proof -
      from k px have "plain k" by (simp add: list_all_iff)
      then have wf: "list_all wf_seg (subst x k segs)"
        using less.prems(1) by (simp add: wf_subst plain_def)
      have vs: "vars_of (subst x k segs) = filter (\<lambda>y. y \<noteq> x) (vars_of segs)"
        by (rule vars_of_subst)
      have "length (vars_of (subst x k segs)) < length (vars_of segs)"
        unfolding vs using Cons by (simp add: le_imp_less_Suc)
      moreover have "\<forall>y \<in> set (vars_of (subst x k segs)). list_all plain (values_of V y)"
        using less.prems(2) vs by simp
      ultimately obtain out where
        "ConstructFromTemplate ex V (render (subst x k segs)) a = Some (a @ out)"
        "length out = (\<Prod>y \<in> set (vars_of (subst x k segs)). length (values_of V y))"
        "list_all (\<lambda>c. FindString c = []) out"
        using less.hyps [OF _ wf] by blast
      moreover have "set (vars_of (subst x k segs)) = ?rem"
        unfolding vs by auto
      ultimately show ?thesis by auto
    qed
    from for_each_appends [where ks = "values_of V x"
        and body = "\<lambda>k cl. ConstructFromTemplate ex V (render (subst x k segs)) cl"
        and c = ?c and Q = "\<lambda>c. FindString c = []" and acc = acc] inner
    obtain out where out:
      "for_each (\<lambda>k cl. ConstructFromTemplate ex V (render (subst x k segs)) cl) (values_of V x) acc
         = Some (acc @ out)"
      "length out = length (values_of V x) * ?c" "list_all (\<lambda>c. FindString c = []) out"
      by blast
    have "(\<Prod>y \<in> set (vars_of segs). length (values_of V y)) = length (values_of V x) * ?c"
      using Cons by (intro prod.remove) auto
    with out CFT_step [OF less.prems(1) Cons px, of ex acc] show ?thesis by auto
  qed
qed

lemma CFT_render_agree:
  assumes "list_all wf_seg segs"
    and "\<forall>x \<in> set (vars_of segs). list_all plain (values_of V x)"
    and "\<forall>x \<in> set (vars_of segs). values_of V' x = values_of V x"
  shows "ConstructFromTemplate ex V' (render segs) acc = ConstructFromTemplate ex V (render segs) acc"
  using assms
proof (induction "length (vars_of segs)" arbitrary: segs acc rule: less_induct)
  case less
  show ?case
  proof (cases "vars_of segs")
    case Nil
    from CFT_done(1) [OF less.prems(1) Nil] show ?thesis by simp
  next
    case (Cons x rest)
    have px: "list_all plain (values_of V x)" using less.prems(2) Cons by simp
    have eqx: "values_of V' x = values_of V x" using less.prems(3) Cons by simp
    have "ConstructFromTemplate ex V' (render (subst x k segs)) a
        = ConstructFromTemplate ex V (render (subst x k segs)) a"
      if k: "k \<in> set (values_of V x)" for k a
    proof -
      from k px have "plain k" by (simp add: list_all_iff)
      then have wf: "list_all wf_seg (subst x k segs)"
        using less.prems(1) by (simp add: wf_subst plain_def)
      have vs: "vars_of (subst x k segs) = filter (\<lambda>y. y \<noteq> x) (vars_of segs)"
        by (rule vars_of_subst)
      have "length (vars_of (subst x k segs)) < length (vars_of segs)"
        unfolding vs using Cons by (simp add: le_imp_less_Suc)
      then show ?thesis
        using less.hyps [OF _ wf] less.prems(2,3) vs by simp
    qed
    then have "for_each (\<lambda>k cl. ConstructFromTemplate ex V' (render (subst x k segs)) cl)
          (values_of V x) acc
        = for_each (\<lambda>k cl. ConstructFromTemplate ex V (render (subst x k segs)) cl)
          (values_of V x) acc"
      by (intro for_each_same)
    with CFT_step [OF less.prems(1) Cons px, of ex acc]
      CFT_step [OF less.prems(1) Cons, of V' ex acc] px eqx
    show ?thesis by simp
  qed
qed


lemma used_names_prod:
  "prod_list (map f (used_names t)) = prod f (set (used_names t))"
proof -
  have "distinct (used_names t)" by (simp add: used_names_def)
  then show ?thesis by (simp add: prod.distinct_set_conv_list)
qed

text \<open>
  Claim C2, amended: for every well-formed template (each \<^verbatim>\<open>%\<close> begins a placeholder) with
  k distinct used placeholders whose value lists have the lengths n1..nk and hold plain
  values only (no \<^verbatim>\<open>%\<close>, no \<^verbatim>\<open>$\<close>), the Template Expander returns, having appended
  exactly the product of the ni concrete commands, none of which contains a placeholder;
  the output is the same for every other mapping that gives the used placeholders the same
  values, so placeholders that are declared but not used do not affect it.
\<close>

theorem ConstructFromTemplate_cartesian:
  assumes "wf_template template"
    and "list_all (\<lambda>x. list_all plain (values_of variables x)) (used_names template)"
  shows "\<exists>out. ConstructFromTemplate expand variables template cmdList = Some (cmdList @ out) \<and>
           length out = prod_list (map (\<lambda>x. length (values_of variables x)) (used_names template)) \<and>
           list_all (\<lambda>c. FindString c = []) out \<and>
           (\<forall>variables'.
              (\<forall>x \<in> set (used_names template). values_of variables' x = values_of variables x) \<longrightarrow>
              ConstructFromTemplate expand variables' template cmdList = Some (cmdList @ out))"
proof -
  from wf_template_segs [OF assms(1)] obtain segs where
    segs: "list_all wf_seg segs" "render segs = template" by blast
  have names: "set (used_names template) = set (vars_of segs)"
    using used_names_render [OF segs(1)] segs(2) by simp
  have pl: "\<forall>x \<in> set (vars_of segs). list_all plain (values_of variables x)"
    using assms(2) names by (simp add: list_all_iff)
  from CFT_render_count [OF segs(1) pl, of expand cmdList] obtain out where out:
    "ConstructFromTemplate expand variables template cmdList = Some (cmdList @ out)"
    "length out = (\<Prod>x \<in> set (vars_of segs). length (values_of variables x))"
    "list_all (\<lambda>c. FindString c = []) out"
    using segs(2) by auto
  have "length out = prod_list (map (\<lambda>x. length (values_of variables x)) (used_names template))"
    using out(2) names by (simp add: used_names_prod)
  moreover have "ConstructFromTemplate expand V' template cmdList = Some (cmdList @ out)"
    if "\<forall>x \<in> set (used_names template). values_of V' x = values_of variables x" for V'
    using CFT_render_agree [OF segs(1) pl, of V' expand cmdList] that names out(1) segs(2)
    by simp
  ultimately show ?thesis using out by blast
qed

lemmas cft_eval = ConstructFromTemplate.simps match_var_def ident_start_def ident_char_def
  is_digit_def slice_def values_of_def expand_replacement_def Let_def used_names_def plain_def
  varName_of_def replaced_def

theorem ConstructFromTemplate_cartesian_witness:
  "ConstructFromTemplate (\<lambda>repl m. repl) [''x'' \<mapsto> [''1'', ''2''], ''y'' \<mapsto> [''a'', ''b''], ''z'' \<mapsto> []]
       ''create %{y} --name lb%{x}%{y}'' [] =
     Some [''create a --name lb1a'', ''create a --name lb2a'',
           ''create b --name lb1b'', ''create b --name lb2b'']"
proof -
  let ?V = "[''x'' \<mapsto> [''1'', ''2''], ''y'' \<mapsto> [''a'', ''b''], ''z'' \<mapsto> []]"
  have "wf_template ''create %{y} --name lb%{x}%{y}''"
    by (simp add: match_var_def ident_start_def ident_char_def is_digit_def)
  moreover have "list_all (\<lambda>x. list_all plain (values_of ?V x))
      (used_names ''create %{y} --name lb%{x}%{y}'')"
    by (simp add: cft_eval)
  ultimately obtain out where
    "ConstructFromTemplate (\<lambda>repl m. repl) ?V ''create %{y} --name lb%{x}%{y}'' [] = Some ([] @ out)"
    using ConstructFromTemplate_cartesian by blast
  then show ?thesis by (simp add: cft_eval)
qed

lemma for_each_Nil: "Option.bind m (for_each body []) = m"
  by (cases m) simp_all

lemma CFT_self_reference_aux:
  assumes "ConstructFromTemplate ex V t acc = Some y"
  shows "expand_replacement ex v ''%{x}'' = ''%{x}'' \<longrightarrow> V = [''x'' \<mapsto> [v]] \<longrightarrow> t = ''%{x}''
           \<longrightarrow> False"
proof (rule ConstructFromTemplate.raw_induct
    [where P = "\<lambda>ex V t acc y. expand_replacement ex v ''%{x}'' = ''%{x}'' \<longrightarrow>
       V = [''x'' \<mapsto> [v]] \<longrightarrow> t = ''%{x}'' \<longrightarrow> False", OF _ assms])
  fix CFT :: "(string \<Rightarrow> string \<Rightarrow> string) \<Rightarrow> (string \<rightharpoonup> string list) \<Rightarrow> string \<Rightarrow> string list
      \<Rightarrow> string list option"
    and ex V t acc y
  assume IH: "\<And>ex V t acc y. CFT ex V t acc = Some y \<Longrightarrow>
      expand_replacement ex v ''%{x}'' = ''%{x}'' \<longrightarrow> V = [''x'' \<mapsto> [v]] \<longrightarrow> t = ''%{x}'' \<longrightarrow> False"
    and body: "(let varInTmp = FindString t in
      if varInTmp = [] then Some (acc @ [t])
      else
        let l = length varInTmp;
            varName = slice varInTmp 2 (l - 1)
        in for_each
             (\<lambda>k cl. CFT ex V (ReplaceAllString varInTmp t (expand_replacement ex k varInTmp)) cl)
             (values_of V varName) acc) = Some y"
  show "expand_replacement ex v ''%{x}'' = ''%{x}'' \<longrightarrow> V = [''x'' \<mapsto> [v]] \<longrightarrow> t = ''%{x}''
          \<longrightarrow> False"
  proof (intro impI)
    assume e: "expand_replacement ex v ''%{x}'' = ''%{x}''"
      and V: "V = [''x'' \<mapsto> [v]]" and t: "t = ''%{x}''"
    from body have "CFT ex V t acc = Some y"
      unfolding V t
      by (simp add: match_var_def ident_start_def ident_char_def is_digit_def slice_def
          values_of_def Let_def for_each_Nil e)
    from IH [OF this] e V t show False by blast
  qed
qed

lemma CFT_self_reference:
  "expand_replacement ex v ''%{x}'' = ''%{x}'' \<Longrightarrow>
     ConstructFromTemplate ex [''x'' \<mapsto> [v]] ''%{x}'' acc = None"
  using CFT_self_reference_aux [of ex "[''x'' \<mapsto> [v]]" "''%{x}''" acc _ v]
  by (cases "ConstructFromTemplate ex [''x'' \<mapsto> [v]] ''%{x}'' acc") auto

text \<open>The claim as stated fails when a value brings a placeholder of its own, and when a
  \<^verbatim>\<open>%\<close> of the template begins no placeholder: the template \<^verbatim>\<open>%{x}\<close> has one used
  placeholder with one value, but two commands are emitted when the value is \<^verbatim>\<open>%{y}\<close> and
  \<open>y\<close> has two values (and none when \<open>y\<close> is not declared), and the expansion never
  returns when the value is \<^verbatim>\<open>$0\<close>; in \<^verbatim>\<open>%{a%{x}b}\<close> the only
  placeholder is \<open>x\<close>, and with its single value \<open>1\<close> no command is emitted.\<close>

theorem ConstructFromTemplate_count_counterexample:
  "used_names ''%{x}'' = [''x''] \<and>
   ConstructFromTemplate (\<lambda>repl m. repl) [''x'' \<mapsto> [''%{y}''], ''y'' \<mapsto> [''1'', ''2'']] ''%{x}'' []
     = Some [''1'', ''2''] \<and>
   ConstructFromTemplate (\<lambda>repl m. repl) [''x'' \<mapsto> [''%{y}'']] ''%{x}'' [] = Some [] \<and>
   ConstructFromTemplate expand_dollar_zero [''x'' \<mapsto> [''$0'']] ''%{x}'' [] = None \<and>
   used_names ''%{a%{x}b}'' = [''x''] \<and>
   ConstructFromTemplate (\<lambda>repl m. repl) [''x'' \<mapsto> [''1'']] ''%{a%{x}b}'' [] = Some []"
proof -
  have "ConstructFromTemplate expand_dollar_zero [''x'' \<mapsto> [''$0'']] ''%{x}'' [] = None"
    by (rule CFT_self_reference) (simp add: expand_replacement_def expand_dollar_zero_def)
  then show ?thesis by (simp add: cft_eval)
qed

lemma FindString_occurs:
  "FindString t \<noteq> [] \<Longrightarrow> \<exists>x pre post. is_ident x \<and> FindString t = token x \<and> t = pre @ token x @ post"
proof (induction t)
  case Nil
  then show ?case by simp
next
  case (Cons c cs)
  show ?case
  proof (cases "match_var (c # cs)")
    case (Some m)
    from match_var_SomeD [OF Some] obtain x rest where
      x: "is_ident x" "m = token x" "c # cs = m @ rest"
      by blast
    have "FindString (c # cs) = m" using Some by simp
    with x have "is_ident x \<and> FindString (c # cs) = token x \<and> c # cs = [] @ token x @ rest"
      by simp
    then show ?thesis by blast
  next
    case None
    with Cons obtain x pre post where "is_ident x" "FindString cs = token x" "cs = pre @ token x @ post"
      by auto
    with None have "is_ident x \<and> FindString (c # cs) = token x \<and> c # cs = (c # pre) @ token x @ post"
      by simp
    then show ?thesis by blast
  qed
qed

lemma count_token: "is_ident x \<Longrightarrow> count_list (token x) (CHR ''%'') = 1"
  using is_ident_no_special(1) [of x] by (simp add: token_Cons)

lemma RAS_count_le:
  "is_ident x \<Longrightarrow> CHR ''%'' \<notin> set k \<Longrightarrow>
     count_list (ReplaceAllString (token x) s k) (CHR ''%'') \<le> count_list s (CHR ''%'')"
proof (induction s rule: length_induct)
  case (1 s)
  show ?case
  proof (cases s)
    case Nil
    then show ?thesis by simp
  next
    case (Cons c cs)
    show ?thesis
    proof (cases "prefix (token x) s")
      case True
      then obtain rest where r: "s = token x @ rest" by (auto simp: prefix_def)
      then have "length rest < length s" by (simp add: token_def)
      with 1 have "count_list (ReplaceAllString (token x) rest k) (CHR ''%'')
          \<le> count_list rest (CHR ''%'')"
        by blast
      moreover have "ReplaceAllString (token x) s k = k @ ReplaceAllString (token x) rest k"
        unfolding r by (rule RAS_same)
      moreover have "count_list s (CHR ''%'') = 1 + count_list rest (CHR ''%'')"
        unfolding r using count_token [OF 1(2)] by simp
      ultimately show ?thesis using 1(3) by simp
    next
      case False
      have "length cs < length s" using Cons by simp
      with 1 have "count_list (ReplaceAllString (token x) cs k) (CHR ''%'')
          \<le> count_list cs (CHR ''%'')"
        by blast
      with False Cons show ?thesis by simp
    qed
  qed
qed

lemma RAS_count_less:
  assumes "is_ident x" "CHR ''%'' \<notin> set k"
  shows "count_list (ReplaceAllString (token x) (pre @ token x @ post) k) (CHR ''%'')
           < count_list (pre @ token x @ post) (CHR ''%'')"
proof (induction pre)
  case Nil
  have "count_list (ReplaceAllString (token x) post k) (CHR ''%'') \<le> count_list post (CHR ''%'')"
    by (rule RAS_count_le [OF assms])
  then show ?case
    using assms(2) count_token [OF assms(1)] by (simp add: RAS_same)
next
  case (Cons c pre)
  show ?case
  proof (cases "prefix (token x) (c # pre @ token x @ post)")
    case True
    then obtain rest where r: "c # pre @ token x @ post = token x @ rest" by (auto simp: prefix_def)
    have "count_list (ReplaceAllString (token x) rest k) (CHR ''%'') \<le> count_list rest (CHR ''%'')"
      by (rule RAS_count_le [OF assms])
    moreover have "ReplaceAllString (token x) (token x @ rest) k = k @ ReplaceAllString (token x) rest k"
      by (rule RAS_same)
    moreover have "count_list (token x @ rest) (CHR ''%'') = 1 + count_list rest (CHR ''%'')"
      using count_token [OF assms(1)] by simp
    ultimately show ?thesis using assms(2) r by simp
  next
    case False
    with Cons show ?thesis by simp
  qed
qed

lemma for_each_returns:
  assumes "\<And>k s. k \<in> set ks \<Longrightarrow> \<exists>s'. body k s = Some s'"
  shows "\<exists>s'. for_each body ks s = Some s'"
  using assms
proof (induction ks arbitrary: s)
  case Nil
  then show ?case by simp
next
  case (Cons k ks)
  from Cons.prems [of k s] obtain s1 where "body k s = Some s1" by auto
  moreover from Cons.IH [of s1] Cons.prems obtain s2 where "for_each body ks s1 = Some s2" by auto
  ultimately show ?case by simp
qed

lemma replaced_count_less:
  assumes "FindString template \<noteq> []" and "plain k"
  shows "count_list (replaced expand template k) (CHR ''%'') < count_list template (CHR ''%'')"
proof -
  from FindString_occurs [OF assms(1)] obtain x pre post where
    x: "is_ident x" "FindString template = token x" "template = pre @ token x @ post" by blast
  have "replaced expand template k = ReplaceAllString (token x) (pre @ token x @ post) k"
    using x assms(2) by (simp add: replaced_def expand_plain Let_def)
  with RAS_count_less [OF x(1), of k pre post] assms(2) x(3) show ?thesis
    by (simp add: plain_def)
qed

lemma CFT_unfold:
  "ConstructFromTemplate expand variables template cmdList =
     (if FindString template = [] then Some (cmdList @ [template])
      else for_each (\<lambda>k cl. ConstructFromTemplate expand variables (replaced expand template k) cl)
             (values_of variables (varName_of template)) cmdList)"
  by (subst ConstructFromTemplate.simps) (simp add: Let_def replaced_def varName_of_def)

lemma CFT_returns:
  assumes "plain_values variables"
  shows "\<exists>out. ConstructFromTemplate expand variables template cmdList = Some out"
proof (induction "count_list template (CHR ''%'')" arbitrary: template cmdList rule: less_induct)
  case less
  show ?case
  proof (cases "FindString template = []")
    case True
    then show ?thesis by (subst CFT_unfold) simp
  next
    case False
    have "\<exists>s'. ConstructFromTemplate expand variables (replaced expand template k) s = Some s'"
      if "k \<in> set (values_of variables (varName_of template))" for k s
    proof -
      from that assms have "plain k" by (auto simp: plain_values_def list_all_iff)
      from less.hyps [OF replaced_count_less [OF False this]] show ?thesis .
    qed
    from for_each_returns [of "values_of variables (varName_of template)"
        "\<lambda>k cl. ConstructFromTemplate expand variables (replaced expand template k) cl", OF this]
    show ?thesis by (subst CFT_unfold) (simp add: False)
  qed
qed

lemma replaced_names_less:
  assumes "wf_template template" "FindString template \<noteq> []" "plain k"
  shows "length (used_names (replaced expand template k)) < length (used_names template)"
proof -
  from wf_template_segs [OF assms(1)] obtain segs where
    segs: "list_all wf_seg segs" "render segs = template" by blast
  from assms(2) FindString_render [OF segs(1)] segs(2) obtain x rest where
    v: "vars_of segs = x # rest" and F: "FindString template = token x"
    by (cases "vars_of segs") auto
  have x: "is_ident x" using vars_of_ident [OF segs(1)] v by simp
  have "replaced expand template k = render (subst x k segs)"
    using RAS_render [OF segs(1) x, of k] F segs(2) assms(3)
    by (simp add: replaced_def expand_plain Let_def)
  moreover have "list_all wf_seg (subst x k segs)"
    using segs(1) assms(3) by (simp add: wf_subst plain_def)
  ultimately have "used_names (replaced expand template k) = remdups (filter (\<lambda>y. y \<noteq> x) (vars_of segs))"
    by (simp add: used_names_render vars_of_subst)
  moreover have "used_names template = remdups (vars_of segs)"
    using used_names_render [OF segs(1)] segs(2) by simp
  moreover have "card (set (filter (\<lambda>y. y \<noteq> x) (vars_of segs))) < card (set (vars_of segs))"
    using v by (intro psubset_card_mono) auto
  ultimately show ?thesis by (simp add: length_remdups_card_conv)
qed

text \<open>
  Claim C3, amended: for every template and every mapping whose values are all plain (no
  \<^verbatim>\<open>%\<close>, no \<^verbatim>\<open>$\<close>), the recursion of the Template Expander terminates, because each
  recursive step substitutes every occurrence of the chosen placeholder at once and
  thereby strictly reduces the number of \<^verbatim>\<open>%\<close> characters of the template; when the
  template is well formed, the step also strictly reduces the number of distinct
  placeholder names that remain.
\<close>

theorem ConstructFromTemplate_terminates:
  assumes "plain_values variables"
  shows "(\<exists>out. ConstructFromTemplate expand variables template cmdList = Some out) \<and>
         (\<forall>k \<in> set (values_of variables (varName_of template)). FindString template \<noteq> [] \<longrightarrow>
            count_list (replaced expand template k) (CHR ''%'') < count_list template (CHR ''%'') \<and>
            (wf_template template \<longrightarrow>
               length (used_names (replaced expand template k)) < length (used_names template)))"
proof -
  have "plain k" if "k \<in> set (values_of variables (varName_of template))" for k
    using that assms by (auto simp: plain_values_def list_all_iff)
  with CFT_returns [OF assms] replaced_count_less replaced_names_less show ?thesis
    by blast
qed


text \<open>The claim as stated fails: with the value \<^verbatim>\<open>%{x}\<close> for \<open>x\<close>, and with the value \<^verbatim>\<open>$0\<close>,
  the template \<^verbatim>\<open>%{x}\<close> is replaced by itself and the recursion never ends. Nor does a
  step always reduce the number of distinct names: from \<^verbatim>\<open>%{a%{x}b}\<close> the value \<open>1\<close> makes
  \<^verbatim>\<open>%{a1b}\<close>.\<close>

theorem ConstructFromTemplate_self_reference_diverges:
  "ConstructFromTemplate (\<lambda>repl m. repl) [''x'' \<mapsto> [''%{x}'']] ''%{x}'' [] = None \<and>
   ConstructFromTemplate expand_dollar_zero [''x'' \<mapsto> [''$0'']] ''%{x}'' [] = None \<and>
   used_names ''%{a%{x}b}'' = [''x''] \<and>
   used_names (replaced (\<lambda>repl m. repl) ''%{a%{x}b}'' ''1'') = [''a1b'']"
proof -
  have "ConstructFromTemplate (\<lambda>repl m. repl) [''x'' \<mapsto> [''%{x}'']] ''%{x}'' [] = None"
    by (rule CFT_self_reference) (simp add: expand_replacement_def)
  moreover have "ConstructFromTemplate expand_dollar_zero [''x'' \<mapsto> [''$0'']] ''%{x}'' [] = None"
    by (rule CFT_self_reference) (simp add: expand_replacement_def expand_dollar_zero_def)
  moreover have "used_names ''%{a%{x}b}'' = [''x'']"
    by (simp add: cft_eval)
  moreover have "used_names (replaced (\<lambda>repl m. repl) ''%{a%{x}b}'' ''1'') = [''a1b'']"
    by (simp add: cft_eval)
  ultimately show ?thesis by simp
qed

lemma demo_values_plain: "plain_values [''x'' \<mapsto> [''1'', ''2'']]"
  by (simp add: plain_values_def values_of_def plain_def)

theorem ConstructFromTemplate_terminates_witness:
  "(\<exists>out. ConstructFromTemplate (\<lambda>repl m. repl) [''x'' \<mapsto> [''1'', ''2'']] ''lb%{x}-%{x}'' []
            = Some out) \<and>
   count_list (replaced (\<lambda>repl m. repl) ''lb%{x}-%{x}'' ''1'') (CHR ''%'')
     < count_list ''lb%{x}-%{x}'' (CHR ''%'') \<and>
   length (used_names (replaced (\<lambda>repl m. repl) ''lb%{x}-%{x}'' ''1''))
     < length (used_names ''lb%{x}-%{x}'')"
proof -
  note t = ConstructFromTemplate_terminates
    [OF demo_values_plain, of "\<lambda>repl m. repl" "''lb%{x}-%{x}''" "[]"]
  have k: "''1'' \<in> set (values_of [''x'' \<mapsto> [''1'', ''2'']] (varName_of ''lb%{x}-%{x}''))"
    by (simp add: cft_eval)
  have f: "FindString ''lb%{x}-%{x}'' \<noteq> []"
    by (simp add: cft_eval)
  have w: "wf_template ''lb%{x}-%{x}''"
    by (simp add: cft_eval)
  from t k f w show ?thesis by blast
qed

end
